theory Spec2Isabelle
  imports Main "HOL-Library.Word" "HOL-Library.Sublist"
begin

section \<open>Strings of UTF-16 code units\<close>

text \<open>
  A JavaScript string is a sequence of 16-bit code units; \<open>value.length\<close>,
  \<open>split('')\<close>, \<open>===\<close> and the regular expressions of \<open>server.js\<close> (none has the
  \<open>u\<close> flag) all work on code units.  String literals of the source are ASCII and are
  written with \<open>js\<close>.
\<close>

type_synonym code_unit = "16 word"
type_synonym jsstring = "code_unit list"

definition js :: "string \<Rightarrow> jsstring" where
  "js s = map (\<lambda>c. of_nat (of_char c)) s"

text \<open>The character classes \<open>\d\<close>, \<open>\w\<close>, \<open>[a-zA-Z]\<close>, \<open>\s\<close> and \<open>.\<close> of a
  regular expression without flags.\<close>

definition is_digit :: "code_unit \<Rightarrow> bool" where
  "is_digit c = (0x30 \<le> c \<and> c \<le> 0x39)"

definition is_ascii_letter :: "code_unit \<Rightarrow> bool" where
  "is_ascii_letter c = ((0x61 \<le> c \<and> c \<le> 0x7A) \<or> (0x41 \<le> c \<and> c \<le> 0x5A))"

definition is_word :: "code_unit \<Rightarrow> bool" where
  "is_word c = (is_ascii_letter c \<or> is_digit c \<or> c = 0x5F)"

definition is_line_terminator :: "code_unit \<Rightarrow> bool" where
  "is_line_terminator c = (c = 0x0A \<or> c = 0x0D \<or> c = 0x2028 \<or> c = 0x2029)"

text \<open>White space and line terminators: what \<open>\s\<close> matches, what \<open>trim\<close> strips and
  what \<open>parseInt\<close> skips.\<close>

definition is_space :: "code_unit \<Rightarrow> bool" where
  "is_space c = ((0x09 \<le> c \<and> c \<le> 0x0D) \<or> c = 0x20 \<or> c = 0xA0 \<or> c = 0x1680
      \<or> (0x2000 \<le> c \<and> c \<le> 0x200A) \<or> c = 0x2028 \<or> c = 0x2029 \<or> c = 0x202F
      \<or> c = 0x205F \<or> c = 0x3000 \<or> c = 0xFEFF)"

definition is_dot :: "code_unit \<Rightarrow> bool" where
  "is_dot c = (\<not> is_line_terminator c)"

definition trim :: "jsstring \<Rightarrow> jsstring" where
  "trim s = rev (dropWhile is_space (rev (dropWhile is_space s)))"

text \<open>\<open>haystack.includes(needle)\<close>.\<close>

fun includes_str :: "jsstring \<Rightarrow> jsstring \<Rightarrow> bool" where
  "includes_str [] needle = (needle = [])"
| "includes_str (c # cs) needle = (prefix needle (c # cs) \<or> includes_str cs needle)"

text \<open>
  The string iterator behind \<open>for (const ch of value)\<close> and \<open>new Set(value)\<close> yields
  code points: a high surrogate followed by a low surrogate is one element of two code
  units, every other code unit is an element of its own.
\<close>

definition is_high_surrogate :: "code_unit \<Rightarrow> bool" where
  "is_high_surrogate c = (0xD800 \<le> c \<and> c \<le> 0xDBFF)"

definition is_low_surrogate :: "code_unit \<Rightarrow> bool" where
  "is_low_surrogate c = (0xDC00 \<le> c \<and> c \<le> 0xDFFF)"

fun code_points :: "jsstring \<Rightarrow> jsstring list" where
  "code_points [] = []"
| "code_points [c] = [[c]]"
| "code_points (c # d # cs) =
     (if is_high_surrogate c \<and> is_low_surrogate d then [c, d] # code_points cs
      else [c] # code_points (d # cs))"

text \<open>
  The runtime functions the source calls and does not define: \<open>toLowerCase\<close> (the
  Unicode lower-case mapping) and the SHA-256 digest in hexadecimal.  They are parameters
  of the model; every theorem below holds for whatever they compute.
\<close>

record runtime =
  toLowerCase :: "jsstring \<Rightarrow> jsstring"
  sha256_hex :: "jsstring \<Rightarrow> jsstring"

text \<open>The lower-case mapping on ASCII-only strings, for the closed examples.\<close>

definition ascii_lower :: "jsstring \<Rightarrow> jsstring" where
  "ascii_lower s = map (\<lambda>c. if 0x41 \<le> c \<and> c \<le> 0x5A then c + 0x20 else c) s"

definition ascii_runtime :: runtime where
  "ascii_runtime = \<lparr>toLowerCase = ascii_lower, sha256_hex = (\<lambda>s. [])\<rparr>"

section \<open>Numbers\<close>

text \<open>
  The numbers of the source are IEEE doubles.  All of them here are integers or
  infinities: they come from \<open>parseInt(v, 10)\<close>, from \<open>Number\<close> of a run of digits,
  from adding or subtracting 1, and from lengths and counts.  Zero and minus zero behave
  alike in every comparison of the source and are one value.
\<close>

datatype jsnum = NegInf | Num int | PosInf

function bitlen :: "int \<Rightarrow> nat" where
  "bitlen n = (if n \<le> 0 then 0 else Suc (bitlen (n div 2)))"
  by pat_completeness auto
termination
  by (relation "measure nat") auto

declare bitlen.simps [simp del]

text \<open>Rounding a non-negative integer to the nearest double, ties to the even
  significand of 53 bits; from 2 to the 1024 on the result is infinite.  This is the
  value \<open>Number\<close> and \<open>parseInt\<close> give for a run of decimal digits, and the result
  of adding to or subtracting from such a value.\<close>

definition round_double :: "int \<Rightarrow> int" where
  "round_double n =
     (if n < 2 ^ 53 then n
      else let e = bitlen n - 53; q = n div 2 ^ e; r = n mod 2 ^ e; h = 2 ^ (e - 1)
           in (if h < r \<or> (r = h \<and> odd q) then q + 1 else q) * 2 ^ e)"

definition to_number :: "int \<Rightarrow> jsnum" where
  "to_number i =
     (let m = round_double \<bar>i\<bar>
      in if 2 ^ 1024 \<le> m then (if i < 0 then NegInf else PosInf)
         else Num (if i < 0 then - m else m))"

fun num_add :: "jsnum \<Rightarrow> int \<Rightarrow> jsnum" where
  "num_add (Num a) k = to_number (a + k)"
| "num_add NegInf k = NegInf"
| "num_add PosInf k = PosInf"

fun num_le :: "jsnum \<Rightarrow> jsnum \<Rightarrow> bool" where
  "num_le NegInf b = True"
| "num_le (Num a) NegInf = False"
| "num_le (Num a) (Num b) = (a \<le> b)"
| "num_le (Num a) PosInf = True"
| "num_le PosInf b = (b = PosInf)"

definition num_gt :: "jsnum \<Rightarrow> jsnum \<Rightarrow> bool" where
  "num_gt a b = (\<not> num_le a b)"

definition digit_value :: "code_unit \<Rightarrow> int" where
  "digit_value c = uint (c - 0x30)"

definition digits_value :: "jsstring \<Rightarrow> int" where
  "digits_value ds = foldl (\<lambda>n c. 10 * n + digit_value c) 0 ds"

text \<open>\<open>Number(m[1])\<close> where the capture is a run of decimal digits.\<close>

definition Number_of_digits :: "jsstring \<Rightarrow> jsnum" where
  "Number_of_digits ds = to_number (digits_value ds)"

text \<open>\<open>parseInt(v, 10)\<close>: skip white space, read a sign, read the longest run of
  digits; \<open>None\<close> is NaN.\<close>

definition parseInt10 :: "jsstring \<Rightarrow> jsnum option" where
  "parseInt10 v =
     (let s = dropWhile is_space v;
          neg = (s \<noteq> [] \<and> hd s = 0x2D);
          s' = (if s \<noteq> [] \<and> (hd s = 0x2B \<or> hd s = 0x2D) then tl s else s);
          z = takeWhile is_digit s'
      in if z = [] then None
         else Some (to_number (if neg then - digits_value z else digits_value z)))"

datatype int_or_null = Undefined | Null | IntVal jsnum

definition parseIntOrNull :: "jsstring option \<Rightarrow> int_or_null" where
  "parseIntOrNull v =
     (case v of None \<Rightarrow> Undefined
      | Some s \<Rightarrow> (case parseInt10 s of None \<Rightarrow> Null | Some n \<Rightarrow> IntVal n))"

section \<open>Regular expressions\<close>

text \<open>
  The fragment the source uses: literals, character classes, \<open>\b\<close>, concatenation,
  alternation, greedy \<open>*\<close> and \<open>+\<close> on a character class, greedy \<open>?\<close>, and numbered
  capture groups.  Matching is the backtracking search of the language: alternatives
  left to right, greedy quantifiers longest first, the leftmost start position wins.
\<close>

datatype regex =
    Lit jsstring
  | Cls "code_unit \<Rightarrow> bool"
  | WordB
  | Cat regex regex
  | Alt regex regex
  | Star "code_unit \<Rightarrow> bool"
  | Plus "code_unit \<Rightarrow> bool"
  | Opt regex
  | Group nat regex

text \<open>A position in the input: the code units before it (nearest first), the code
  units after it, and the captures so far.\<close>

datatype mstate = MState (before: jsstring) (after: jsstring) (captures: "nat \<rightharpoonup> jsstring")

definition at_word_boundary :: "mstate \<Rightarrow> bool" where
  "at_word_boundary st =
     ((case before st of [] \<Rightarrow> False | c # _ \<Rightarrow> is_word c)
      \<noteq> (case after st of [] \<Rightarrow> False | c # _ \<Rightarrow> is_word c))"

fun star_greedy :: "(code_unit \<Rightarrow> bool) \<Rightarrow> (mstate \<Rightarrow> mstate option) \<Rightarrow>
    jsstring \<Rightarrow> jsstring \<Rightarrow> (nat \<rightharpoonup> jsstring) \<Rightarrow> mstate option" where
  "star_greedy p k bef [] caps = k (MState bef [] caps)"
| "star_greedy p k bef (c # cs) caps =
     (if p c
      then (case star_greedy p k (c # bef) cs caps of
              Some r \<Rightarrow> Some r
            | None \<Rightarrow> k (MState bef (c # cs) caps))
      else k (MState bef (c # cs) caps))"

definition strip_prefix :: "jsstring \<Rightarrow> jsstring \<Rightarrow> jsstring option" where
  "strip_prefix l s = (if take (length l) s = l then Some (drop (length l) s) else None)"

fun rmatch :: "regex \<Rightarrow> (mstate \<Rightarrow> mstate option) \<Rightarrow> mstate \<Rightarrow> mstate option" where
  "rmatch (Lit l) k st =
     (case strip_prefix l (after st) of
        None \<Rightarrow> None
      | Some rest \<Rightarrow> k (MState (rev l @ before st) rest (captures st)))"
| "rmatch (Cls p) k st =
     (case after st of
        [] \<Rightarrow> None
      | c # cs \<Rightarrow> if p c then k (MState (c # before st) cs (captures st)) else None)"
| "rmatch WordB k st = (if at_word_boundary st then k st else None)"
| "rmatch (Cat r1 r2) k st = rmatch r1 (rmatch r2 k) st"
| "rmatch (Alt r1 r2) k st =
     (case rmatch r1 k st of Some r \<Rightarrow> Some r | None \<Rightarrow> rmatch r2 k st)"
| "rmatch (Star p) k st = star_greedy p k (before st) (after st) (captures st)"
| "rmatch (Plus p) k st =
     (case after st of
        [] \<Rightarrow> None
      | c # cs \<Rightarrow> if p c then star_greedy p k (c # before st) cs (captures st) else None)"
| "rmatch (Opt r) k st =
     (case rmatch r k st of Some r \<Rightarrow> Some r | None \<Rightarrow> k st)"
| "rmatch (Group n r) k st =
     rmatch r (\<lambda>st'. k (MState (before st') (after st')
        ((captures st')(n \<mapsto> rev (take (length (before st') - length (before st)) (before st'))))))
       st"

text \<open>A match attempt at one position, and the search for the leftmost match that
  \<open>test\<close> and \<open>match\<close> make from the start of the string.\<close>

definition match_here :: "regex \<Rightarrow> jsstring \<Rightarrow> jsstring \<Rightarrow> mstate option" where
  "match_here r bef aft = rmatch r Some (MState bef aft Map.empty)"

fun search :: "regex \<Rightarrow> jsstring \<Rightarrow> jsstring \<Rightarrow> mstate option" where
  "search r bef [] = match_here r bef []"
| "search r bef (c # cs) =
     (case match_here r bef (c # cs) of
        Some st \<Rightarrow> Some st
      | None \<Rightarrow> search r (c # bef) cs)"

definition exec :: "regex \<Rightarrow> jsstring \<Rightarrow> mstate option" where
  "exec r s = search r [] s"

definition test :: "regex \<Rightarrow> jsstring \<Rightarrow> bool" where
  "test r s = (exec r s \<noteq> None)"

text \<open>Capture \<open>n\<close> of a match object: \<open>m[n]\<close>.\<close>

definition capture :: "mstate \<Rightarrow> nat \<Rightarrow> jsstring" where
  "capture st n = (case captures st n of None \<Rightarrow> [] | Some s \<Rightarrow> s)"

text \<open>Concatenation of several parts, to write a pattern in the order it is read.\<close>

fun seq :: "regex list \<Rightarrow> regex" where
  "seq [] = Lit []"
| "seq [r] = r"
| "seq (r # rs) = Cat r (seq rs)"

text \<open>
  \<open>s.split(re)\<close> for a pattern without capture groups: \<open>p\<close> is the start of the
  pending piece and \<open>q\<close> the position tried next; \<open>tok\<close> holds the code units from
  \<open>p\<close> to \<open>q\<close> (nearest first).  A failed attempt and an empty match at \<open>p\<close> move
  \<open>q\<close> by one; any other match closes the pending piece and restarts after the match.
\<close>

definition match_len :: "regex \<Rightarrow> jsstring \<Rightarrow> jsstring \<Rightarrow> nat option" where
  "match_len r bef aft =
     (case match_here r bef aft of
        None \<Rightarrow> None
      | Some st \<Rightarrow> Some (length aft - length (after st)))"

function split_loop :: "regex \<Rightarrow> jsstring \<Rightarrow> jsstring \<Rightarrow> jsstring \<Rightarrow> jsstring list" where
  "split_loop r tok bef [] = [rev tok]"
| "split_loop r tok bef (c # cs) =
     (case match_len r bef (c # cs) of
        None \<Rightarrow> split_loop r (c # tok) (c # bef) cs
      | Some n \<Rightarrow>
          if n = 0 \<and> tok = [] then split_loop r (c # tok) (c # bef) cs
          else rev tok # split_loop r [] (rev (take n (c # cs)) @ bef) (drop n (c # cs)))"
  by pat_completeness auto
termination
  by (relation "measures [\<lambda>(r, tok, bef, aft). length aft, \<lambda>(r, tok, bef, aft). length tok]")
     auto

definition split_re :: "regex \<Rightarrow> jsstring \<Rightarrow> jsstring list" where
  "split_re r s =
     (if s = [] then (case match_here r [] [] of None \<Rightarrow> [[]] | Some _ \<Rightarrow> [])
      else split_loop r [] [] s)"

section \<open>The analyzer\<close>

record properties =
  str_length :: nat
  is_palindrome :: bool
  unique_characters :: nat
  word_count :: nat
  sha256_hash :: jsstring
  character_frequency_map :: "jsstring \<rightharpoonup> nat"

record item =
  item_id :: jsstring
  item_value :: jsstring
  item_properties :: properties
  item_created_at :: jsstring

text \<open>\<open>character_frequency_map[ch] = (character_frequency_map[ch] || 0) + 1\<close>.\<close>

definition count_char :: "jsstring \<Rightarrow> (jsstring \<rightharpoonup> nat) \<Rightarrow> (jsstring \<rightharpoonup> nat)" where
  "count_char ch m = m(ch \<mapsto> (case m ch of None \<Rightarrow> 0 | Some n \<Rightarrow> n) + 1)"

text \<open>
  \<open>analyzeString\<close> of \<open>server.js\<close>.  \<open>split('')\<close> cuts a string into its code
  units, \<open>reverse\<close> and \<open>join('')\<close> put them back in the opposite order; the size of
  \<open>new Set(value)\<close> is the number of distinct elements the string iterator yields; the
  time stamp is an input.
\<close>

definition analyzeString :: "runtime \<Rightarrow> jsstring \<Rightarrow> jsstring \<Rightarrow> item" where
  "analyzeString rt now v =
     (let len = length v;
          pal = (toLowerCase rt v = concat (rev (map (\<lambda>c. [c]) (toLowerCase rt v))));
          uniq = length (remdups (code_points v));
          wc = (if length (trim v) = 0 then 0
                else length (filter (\<lambda>t. t \<noteq> []) (split_re (Plus is_space) (trim v))));
          hash = sha256_hex rt v;
          freq = fold count_char (code_points v) Map.empty
      in \<lparr>item_id = hash, item_value = v,
          item_properties = \<lparr>str_length = len, is_palindrome = pal, unique_characters = uniq,
            word_count = wc, sha256_hash = hash, character_frequency_map = freq\<rparr>,
          item_created_at = now\<rparr>)"

section \<open>The store and its handlers\<close>

text \<open>The store is the array \<open>strings\<close>, in insertion order.  A handler takes the
  store and returns the response (status and body) with the store it leaves.  The error
  messages are written without the quotation marks they have inside.\<close>

type_synonym store = "item list"

text \<open>The filter values a response reports: \<open>filters_applied\<close> and
  \<open>parsed_filters\<close>.  A numeric field is absent, null or a number.\<close>

record filter_set =
  fs_is_palindrome :: "bool option"
  fs_min_length :: int_or_null
  fs_max_length :: int_or_null
  fs_word_count :: int_or_null
  fs_contains_character :: "jsstring option"

definition no_filters :: filter_set where
  "no_filters = \<lparr>fs_is_palindrome = None, fs_min_length = Undefined,
     fs_max_length = Undefined, fs_word_count = Undefined, fs_contains_character = None\<rparr>"

datatype body =
    ErrorBody string
  | ItemBody item
  | CollectionBody "item list" nat filter_set
  | InterpretedBody "item list" nat jsstring filter_set
  | ConflictBody string jsstring filter_set
  | EmptyBody

type_synonym response = "nat \<times> body"

datatype json_value = JUndefined | JNotString | JString jsstring

definition findByValue :: "store \<Rightarrow> jsstring \<Rightarrow> item option" where
  "findByValue strings v = find (\<lambda>item. item_value item = v) strings"

text \<open>\<open>findIndex\<close> gives \<open>-1\<close> when no element satisfies the test;
  \<open>splice(idx, 1)\<close> removes the element at \<open>idx\<close>.\<close>

fun findIndex :: "('a \<Rightarrow> bool) \<Rightarrow> 'a list \<Rightarrow> int" where
  "findIndex P [] = -1"
| "findIndex P (x # xs) =
     (if P x then 0 else (let i = findIndex P xs in if i = -1 then -1 else i + 1))"

definition splice1 :: "'a list \<Rightarrow> int \<Rightarrow> 'a list" where
  "splice1 xs idx = take (nat idx) xs @ drop (nat idx + 1) xs"

definition post_strings :: "runtime \<Rightarrow> jsstring \<Rightarrow> json_value \<Rightarrow> store \<Rightarrow> response \<times> store" where
  "post_strings rt now v strings =
     (case v of
        JUndefined \<Rightarrow> ((400, ErrorBody ''Missing value field''), strings)
      | JNotString \<Rightarrow> ((422, ErrorBody ''value must be a string''), strings)
      | JString s \<Rightarrow>
          (case findByValue strings s of
             Some _ \<Rightarrow> ((409, ErrorBody ''String already exists in the system''), strings)
           | None \<Rightarrow>
               (let entry = analyzeString rt now s
                in ((201, ItemBody entry), strings @ [entry]))))"

definition get_string :: "jsstring \<Rightarrow> store \<Rightarrow> response \<times> store" where
  "get_string stringValue strings =
     (case findByValue strings stringValue of
        None \<Rightarrow> ((404, ErrorBody ''String does not exist in the system''), strings)
      | Some found \<Rightarrow> ((200, ItemBody found), strings))"

definition delete_string :: "jsstring \<Rightarrow> store \<Rightarrow> response \<times> store" where
  "delete_string stringValue strings =
     (let idx = findIndex (\<lambda>item. item_value item = stringValue) strings
      in if idx = -1 then ((404, ErrorBody ''String does not exist in the system''), strings)
         else ((204, EmptyBody), splice1 strings idx))"

text \<open>The delete handler of the earlier variant of the server (\<open>part_001\<close>), which
  compares the lower-cased values.\<close>

definition delete_string_part_001 :: "runtime \<Rightarrow> jsstring \<Rightarrow> store \<Rightarrow> response \<times> store" where
  "delete_string_part_001 rt string_value strings =
     (let index = findIndex
            (\<lambda>item. toLowerCase rt (item_value item) = toLowerCase rt string_value) strings
      in if index = -1 then ((404, ErrorBody ''String does not exist in the system''), strings)
         else ((204, EmptyBody), splice1 strings index))"

section \<open>Filtering by query parameters\<close>

text \<open>The comparisons of the filters, where the right-hand side may be absent or
  null: \<open>undefined\<close> becomes NaN and compares false, \<open>null\<close> becomes 0, and
  \<open>===\<close> holds between equal numbers only.\<close>

fun js_ge :: "jsnum \<Rightarrow> int_or_null \<Rightarrow> bool" where
  "js_ge a Undefined = False"
| "js_ge a Null = num_le (Num 0) a"
| "js_ge a (IntVal b) = num_le b a"

fun js_le :: "jsnum \<Rightarrow> int_or_null \<Rightarrow> bool" where
  "js_le a Undefined = False"
| "js_le a Null = num_le a (Num 0)"
| "js_le a (IntVal b) = num_le a b"

fun js_strict_eq :: "jsnum \<Rightarrow> int_or_null \<Rightarrow> bool" where
  "js_strict_eq a (IntVal b) = (a = b)"
| "js_strict_eq a _ = False"

fun js_gt :: "int_or_null \<Rightarrow> int_or_null \<Rightarrow> bool" where
  "js_gt Undefined b = False"
| "js_gt a Undefined = False"
| "js_gt Null b = (\<not> js_le (Num 0) b)"
| "js_gt (IntVal a) b = (\<not> js_le a b)"

record raw_query =
  q_is_palindrome :: "jsstring option"
  q_min_length :: "jsstring option"
  q_max_length :: "jsstring option"
  q_word_count :: "jsstring option"
  q_contains_character :: "jsstring option"

text \<open>The five filter steps of the handler, each a no-op when its value is absent.\<close>

definition filter_is_palindrome :: "jsstring option \<Rightarrow> item list \<times> filter_set \<Rightarrow> item list \<times> filter_set" where
  "filter_is_palindrome p rf =
     (case p of
        None \<Rightarrow> rf
      | Some v \<Rightarrow>
          (let boolVal = (v = js ''true'')
           in (filter (\<lambda>item. is_palindrome (item_properties item) = boolVal) (fst rf),
               (snd rf)\<lparr>fs_is_palindrome := Some boolVal\<rparr>)))"

definition filter_min_length :: "int_or_null \<Rightarrow> item list \<times> filter_set \<Rightarrow> item list \<times> filter_set" where
  "filter_min_length minLen rf =
     (if minLen \<noteq> Undefined
      then (filter (\<lambda>item. js_ge (Num (int (str_length (item_properties item)))) minLen) (fst rf),
            (snd rf)\<lparr>fs_min_length := minLen\<rparr>)
      else rf)"

definition filter_max_length :: "int_or_null \<Rightarrow> item list \<times> filter_set \<Rightarrow> item list \<times> filter_set" where
  "filter_max_length maxLen rf =
     (if maxLen \<noteq> Undefined
      then (filter (\<lambda>item. js_le (Num (int (str_length (item_properties item)))) maxLen) (fst rf),
            (snd rf)\<lparr>fs_max_length := maxLen\<rparr>)
      else rf)"

definition filter_word_count :: "int_or_null \<Rightarrow> item list \<times> filter_set \<Rightarrow> item list \<times> filter_set" where
  "filter_word_count wc rf =
     (if wc \<noteq> Undefined
      then (filter (\<lambda>item. js_strict_eq (Num (int (word_count (item_properties item)))) wc) (fst rf),
            (snd rf)\<lparr>fs_word_count := wc\<rparr>)
      else rf)"

definition filter_contains_character :: "runtime \<Rightarrow> jsstring option \<Rightarrow> item list \<times> filter_set \<Rightarrow> item list \<times> filter_set" where
  "filter_contains_character rt cc rf =
     (case cc of
        None \<Rightarrow> rf
      | Some c \<Rightarrow>
          (let ch = toLowerCase rt c
           in (filter (\<lambda>item. includes_str (toLowerCase rt (item_value item)) ch) (fst rf),
               (snd rf)\<lparr>fs_contains_character := Some ch\<rparr>)))"

text \<open>\<open>GET /strings\<close>: the values of the query are strings; each check returns
  before any filter runs.\<close>

definition get_strings :: "runtime \<Rightarrow> raw_query \<Rightarrow> store \<Rightarrow> response \<times> store" where
  "get_strings rt q strings =
     (if q_is_palindrome q \<noteq> None \<and> q_is_palindrome q \<noteq> Some (js ''true'')
          \<and> q_is_palindrome q \<noteq> Some (js ''false'')
      then ((400, ErrorBody ''is_palindrome must be true or false''), strings)
      else let minLen = parseIntOrNull (q_min_length q) in
      if q_min_length q \<noteq> None \<and> minLen = Null
      then ((400, ErrorBody ''min_length must be an integer''), strings)
      else let maxLen = parseIntOrNull (q_max_length q) in
      if q_max_length q \<noteq> None \<and> maxLen = Null
      then ((400, ErrorBody ''max_length must be an integer''), strings)
      else let wc = parseIntOrNull (q_word_count q) in
      if q_word_count q \<noteq> None \<and> wc = Null
      then ((400, ErrorBody ''word_count must be an integer''), strings)
      else if (case q_contains_character q of None \<Rightarrow> False | Some c \<Rightarrow> length c \<noteq> 1)
      then ((400, ErrorBody ''contains_character must be a single character''), strings)
      else let rf = filter_contains_character rt (q_contains_character q)
                     (filter_word_count wc
                       (filter_max_length maxLen
                         (filter_min_length minLen
                           (filter_is_palindrome (q_is_palindrome q) (strings, no_filters)))))
           in ((200, CollectionBody (fst rf) (length (fst rf)) (snd rf)), strings))"

section \<open>Filtering by a phrase\<close>

text \<open>The seven patterns of \<open>parseNaturalLanguageQuery\<close>, in the order of the source.\<close>

definition re_single_word :: regex where
  "re_single_word = seq [WordB, Group 1 (Alt (Lit (js ''single'')) (Lit (js ''one''))), WordB,
     Star is_dot, WordB, Lit (js ''word''), WordB]"

definition re_word_count_is_1 :: regex where
  "re_word_count_is_1 = seq [WordB, Lit (js ''word count is 1''), WordB]"

definition re_n_words :: regex where
  "re_n_words = seq [WordB, Group 1 (Plus is_digit), Plus is_space, Lit (js ''word''),
     Opt (Group 2 (Lit (js ''s''))), WordB]"

definition re_palindrome :: regex where
  "re_palindrome = seq [WordB, Lit (js ''palindrom''), Star is_word, WordB]"

definition re_longer :: regex where
  "re_longer = seq [WordB, Lit (js ''longer than ''), Group 1 (Plus is_digit)]"

definition re_shorter :: regex where
  "re_shorter = seq [WordB, Group 1 (Alt (Lit (js ''shorter than'')) (Lit (js ''less than''))),
     Lit (js '' ''), Group 2 (Plus is_digit)]"

definition re_letter :: regex where
  "re_letter = seq [WordB,
     Alt (seq [Lit (js ''contain''), Opt (Alt (Lit (js ''ing'')) (Lit (js ''s''))),
               Opt (Lit (js '' the'')), Opt (Lit (js '' letter''))])
         (Lit (js ''containing'')),
     Plus is_space, Group 1 (Cls is_ascii_letter), WordB]"

text \<open>The assignments to \<open>parsed\<close>, one definition for each \<open>if\<close> of the source.\<close>

definition set_word_count_one :: "jsstring \<Rightarrow> filter_set \<Rightarrow> filter_set" where
  "set_word_count_one s parsed =
     (if test re_single_word s \<or> test re_word_count_is_1 s
      then parsed\<lparr>fs_word_count := IntVal (Num 1)\<rparr> else parsed)"

definition set_word_count_n :: "jsstring \<Rightarrow> filter_set \<Rightarrow> filter_set" where
  "set_word_count_n s parsed =
     (case exec re_n_words s of
        None \<Rightarrow> parsed
      | Some wcMatch \<Rightarrow> parsed\<lparr>fs_word_count := IntVal (Number_of_digits (capture wcMatch 1))\<rparr>)"

definition set_is_palindrome :: "jsstring \<Rightarrow> filter_set \<Rightarrow> filter_set" where
  "set_is_palindrome s parsed =
     (if test re_palindrome s then parsed\<lparr>fs_is_palindrome := Some True\<rparr> else parsed)"

definition set_min_length :: "jsstring \<Rightarrow> filter_set \<Rightarrow> filter_set" where
  "set_min_length s parsed =
     (case exec re_longer s of
        None \<Rightarrow> parsed
      | Some longer \<Rightarrow>
          parsed\<lparr>fs_min_length := IntVal (num_add (Number_of_digits (capture longer 1)) 1)\<rparr>)"

definition set_max_length :: "jsstring \<Rightarrow> filter_set \<Rightarrow> filter_set" where
  "set_max_length s parsed =
     (case exec re_shorter s of
        None \<Rightarrow> parsed
      | Some shorter \<Rightarrow>
          parsed\<lparr>fs_max_length := IntVal (num_add (Number_of_digits (capture shorter 2)) (- 1))\<rparr>)"

definition set_contains_character :: "runtime \<Rightarrow> jsstring \<Rightarrow> filter_set \<Rightarrow> filter_set" where
  "set_contains_character rt s parsed =
     (case exec re_letter s of
        None \<Rightarrow> parsed
      | Some letterMatch \<Rightarrow>
          parsed\<lparr>fs_contains_character := Some (toLowerCase rt (capture letterMatch 1))\<rparr>)"

text \<open>\<open>Object.keys(parsed).length === 0\<close>: no assignment was made.  Every
  assignment of the source stores a defined value.\<close>

definition no_keys :: "filter_set \<Rightarrow> bool" where
  "no_keys parsed = (fs_is_palindrome parsed = None \<and> fs_min_length parsed = Undefined
     \<and> fs_max_length parsed = Undefined \<and> fs_word_count parsed = Undefined
     \<and> fs_contains_character parsed = None)"

definition parseNaturalLanguageQuery :: "runtime \<Rightarrow> jsstring \<Rightarrow> filter_set option" where
  "parseNaturalLanguageQuery rt q =
     (let s = toLowerCase rt q;
          parsed = set_contains_character rt s
                     (set_max_length s
                       (set_min_length s
                         (set_is_palindrome s
                           (set_word_count_n s
                             (set_word_count_one s no_filters)))))
      in if no_keys parsed then None else Some parsed)"

text \<open>The filter steps of the phrase handler.\<close>

definition nl_apply :: "runtime \<Rightarrow> filter_set \<Rightarrow> item list \<Rightarrow> item list" where
  "nl_apply rt pf strings =
     (let results = strings;
          results = (if fs_is_palindrome pf = Some True
                     then filter (\<lambda>item. is_palindrome (item_properties item) = True) results
                     else results);
          results = (if fs_word_count pf \<noteq> Undefined
                     then filter (\<lambda>item. js_strict_eq (Num (int (word_count (item_properties item))))
                                   (fs_word_count pf)) results
                     else results);
          results = (if fs_min_length pf \<noteq> Undefined
                     then filter (\<lambda>item. js_ge (Num (int (str_length (item_properties item))))
                                   (fs_min_length pf)) results
                     else results);
          results = (if fs_max_length pf \<noteq> Undefined
                     then filter (\<lambda>item. js_le (Num (int (str_length (item_properties item))))
                                   (fs_max_length pf)) results
                     else results);
          results = (case fs_contains_character pf of
                       None \<Rightarrow> results
                     | Some c \<Rightarrow>
                         (let ch = toLowerCase rt c
                          in filter (\<lambda>item. includes_str (toLowerCase rt (item_value item)) ch)
                               results))
      in results)"

text \<open>\<open>GET /strings/filter-by-natural-language\<close>: \<open>!query\<close> holds of a missing and
  of an empty query.\<close>

definition filter_by_natural_language ::
    "runtime \<Rightarrow> jsstring option \<Rightarrow> store \<Rightarrow> response \<times> store" where
  "filter_by_natural_language rt query strings =
     (case query of
        None \<Rightarrow> ((400, ErrorBody ''Missing query parameter''), strings)
      | Some q \<Rightarrow>
          if q = [] then ((400, ErrorBody ''Missing query parameter''), strings)
          else (case parseNaturalLanguageQuery rt q of
                  None \<Rightarrow> ((400, ErrorBody ''Unable to parse natural language query''), strings)
                | Some parsed_filters \<Rightarrow>
                    if fs_min_length parsed_filters \<noteq> Undefined
                       \<and> fs_max_length parsed_filters \<noteq> Undefined
                       \<and> js_gt (fs_min_length parsed_filters) (fs_max_length parsed_filters)
                    then ((422, ConflictBody ''Query parsed but resulted in conflicting filters''
                                  q parsed_filters), strings)
                    else (let results = nl_apply rt parsed_filters strings
                          in ((200, InterpretedBody results (length results) q parsed_filters),
                              strings))))"

section \<open>Notions used to state the properties\<close>

text \<open>
  The word count as the specification words it: the string is trimmed and cut at every
  white-space code unit, and the pieces that are not empty are counted.
\<close>

fun pieces :: "jsstring \<Rightarrow> jsstring \<Rightarrow> jsstring list" where
  "pieces tok [] = [rev tok]"
| "pieces tok (c # cs) = (if is_space c then rev tok # pieces [] cs else pieces (c # tok) cs)"

definition spec_word_count :: "jsstring \<Rightarrow> nat" where
  "spec_word_count s = length (filter (\<lambda>t. t \<noteq> []) (pieces [] (trim s)))"

text \<open>A string holds a surrogate pair when a high surrogate is directly followed by a
  low surrogate.  The sum of the counts of a frequency map.\<close>

fun has_surrogate_pair :: "jsstring \<Rightarrow> bool" where
  "has_surrogate_pair [] = False"
| "has_surrogate_pair [c] = False"
| "has_surrogate_pair (c # d # cs) =
     ((is_high_surrogate c \<and> is_low_surrogate d) \<or> has_surrogate_pair (d # cs))"

definition sum_counts :: "(jsstring \<rightharpoonup> nat) \<Rightarrow> nat" where
  "sum_counts m = (\<Sum>k \<in> dom m. the (m k))"

text \<open>
  The filter predicates as the specification words them: the predicates combine with
  logical AND and an absent field imposes no constraint; \<open>is_palindrome\<close> is an exact
  boolean match, \<open>min_length\<close> and \<open>max_length\<close> are inclusive bounds on the length,
  \<open>word_count\<close> is an exact match, and the character of \<open>contains_character\<close> must
  occur in the lower-cased value.
\<close>

definition satisfies :: "runtime \<Rightarrow> filter_set \<Rightarrow> item \<Rightarrow> bool" where
  "satisfies rt f item =
     ((case fs_is_palindrome f of None \<Rightarrow> True
        | Some b \<Rightarrow> is_palindrome (item_properties item) = b)
      \<and> (fs_min_length f = Undefined
           \<or> js_ge (Num (int (str_length (item_properties item)))) (fs_min_length f))
      \<and> (fs_max_length f = Undefined
           \<or> js_le (Num (int (str_length (item_properties item)))) (fs_max_length f))
      \<and> (fs_word_count f = Undefined
           \<or> js_strict_eq (Num (int (word_count (item_properties item)))) (fs_word_count f))
      \<and> (case fs_contains_character f of None \<Rightarrow> True
          | Some ch \<Rightarrow> includes_str (toLowerCase rt (item_value item)) ch))"

text \<open>
  The query of \<open>GET /strings\<close> as the specification reads it (section 4.4).  A query is
  valid when \<open>is_palindrome\<close>, if present, is "true" or "false", each of
  \<open>min_length\<close>, \<open>max_length\<close> and \<open>word_count\<close>, if present, starts with an integer
  that \<open>parseInt\<close> reads, and \<open>contains_character\<close>, if present, is one code unit
  long.  A record meets the query when it meets each parameter that is present: the
  palindrome flag equals the boolean asked for, the length is at least \<open>min_length\<close> and
  at most \<open>max_length\<close>, the word count equals \<open>word_count\<close>, and the lower-cased
  character occurs in the lower-cased value.  The filter values of a query are its
  parameters converted: the boolean, the integers, the lower-cased character.
\<close>

definition int_param :: "jsstring option \<Rightarrow> (jsnum \<Rightarrow> bool) \<Rightarrow> bool" where
  "int_param p P =
     (case p of None \<Rightarrow> True
      | Some v \<Rightarrow> (case parseInt10 v of None \<Rightarrow> False | Some n \<Rightarrow> P n))"

definition valid_query :: "raw_query \<Rightarrow> bool" where
  "valid_query q =
     ((case q_is_palindrome q of None \<Rightarrow> True
        | Some v \<Rightarrow> v = js ''true'' \<or> v = js ''false'')
      \<and> int_param (q_min_length q) (\<lambda>n. True)
      \<and> int_param (q_max_length q) (\<lambda>n. True)
      \<and> int_param (q_word_count q) (\<lambda>n. True)
      \<and> (case q_contains_character q of None \<Rightarrow> True | Some c \<Rightarrow> length c = 1))"

definition requested :: "runtime \<Rightarrow> raw_query \<Rightarrow> item \<Rightarrow> bool" where
  "requested rt q item =
     ((case q_is_palindrome q of None \<Rightarrow> True
        | Some v \<Rightarrow> is_palindrome (item_properties item) = (v = js ''true''))
      \<and> int_param (q_min_length q)
           (\<lambda>n. num_le n (Num (int (str_length (item_properties item)))))
      \<and> int_param (q_max_length q)
           (\<lambda>n. num_le (Num (int (str_length (item_properties item)))) n)
      \<and> int_param (q_word_count q)
           (\<lambda>n. Num (int (word_count (item_properties item))) = n)
      \<and> (case q_contains_character q of None \<Rightarrow> True
          | Some c \<Rightarrow> includes_str (toLowerCase rt (item_value item)) (toLowerCase rt c)))"

definition query_filters :: "runtime \<Rightarrow> raw_query \<Rightarrow> filter_set" where
  "query_filters rt q =
     \<lparr>fs_is_palindrome = map_option (\<lambda>v. v = js ''true'') (q_is_palindrome q),
      fs_min_length = parseIntOrNull (q_min_length q),
      fs_max_length = parseIntOrNull (q_max_length q),
      fs_word_count = parseIntOrNull (q_word_count q),
      fs_contains_character = map_option (toLowerCase rt) (q_contains_character q)\<rparr>"

text \<open>Two queries for the closed examples: the scenario of the specification, and a
  query whose \<open>min_length\<close> is no integer.\<close>

definition scenario_query :: raw_query where
  "scenario_query = \<lparr>q_is_palindrome = Some (js ''true''), q_min_length = Some (js ''3''),
     q_max_length = Some (js ''10''), q_word_count = None, q_contains_character = None\<rparr>"

definition malformed_query :: raw_query where
  "malformed_query = \<lparr>q_is_palindrome = None, q_min_length = Some (js ''abc''),
     q_max_length = None, q_word_count = None, q_contains_character = None\<rparr>"

text \<open>
  A string that starts with a base-10 integer: white space, an optional sign, a
  non-empty run of digits that ends where \<open>rest\<close> begins.
\<close>

definition int_prefix :: "jsstring \<Rightarrow> jsstring \<Rightarrow> jsstring \<Rightarrow> jsstring \<Rightarrow> bool" where
  "int_prefix ws sg ds rest =
     ((\<forall>c \<in> set ws. is_space c) \<and> (sg = [] \<or> sg = [0x2B] \<or> sg = [0x2D])
      \<and> ds \<noteq> [] \<and> (\<forall>c \<in> set ds. is_digit c) \<and> (rest = [] \<or> \<not> is_digit (hd rest)))"

text \<open>
  What a pattern matches, read off its syntax and not off the search:
  \<open>matches r bef w rest\<close> holds when \<open>r\<close> matches the code units \<open>w\<close> that stand
  between \<open>bef\<close> (the code units before them, nearest first) and \<open>rest\<close>.  A word
  boundary lies between a word character and a code unit that is none, or the end.
\<close>

definition boundary :: "jsstring \<Rightarrow> jsstring \<Rightarrow> bool" where
  "boundary bef aft =
     ((case bef of [] \<Rightarrow> False | c # _ \<Rightarrow> is_word c)
      \<noteq> (case aft of [] \<Rightarrow> False | c # _ \<Rightarrow> is_word c))"

fun matches :: "regex \<Rightarrow> jsstring \<Rightarrow> jsstring \<Rightarrow> jsstring \<Rightarrow> bool" where
  "matches (Lit l) bef w rest = (w = l)"
| "matches (Cls p) bef w rest = (\<exists>c. w = [c] \<and> p c)"
| "matches WordB bef w rest = (w = [] \<and> boundary bef rest)"
| "matches (Cat r1 r2) bef w rest =
     (\<exists>w1 w2. w = w1 @ w2 \<and> matches r1 bef w1 (w2 @ rest) \<and> matches r2 (rev w1 @ bef) w2 rest)"
| "matches (Alt r1 r2) bef w rest = (matches r1 bef w rest \<or> matches r2 bef w rest)"
| "matches (Star p) bef w rest = (\<forall>c \<in> set w. p c)"
| "matches (Plus p) bef w rest = (w \<noteq> [] \<and> (\<forall>c \<in> set w. p c))"
| "matches (Opt r) bef w rest = (w = [] \<or> matches r bef w rest)"
| "matches (Group n r) bef w rest = matches r bef w rest"

text \<open>A continuation of the search whose success does not depend on the captures.\<close>

definition capture_blind :: "(mstate \<Rightarrow> mstate option) \<Rightarrow> bool" where
  "capture_blind k = (\<forall>b a c c'. (k (MState b a c) = None) = (k (MState b a c') = None))"

text \<open>
  The five recognizers of the translator, as conditions on the lower-cased phrase that
  name no pattern.  A word starts after \<open>pre\<close> when \<open>pre\<close> is empty or ends with a
  code unit that is not a letter, a digit or an underscore; a word ends before \<open>rest\<close>
  when \<open>rest\<close> is empty or starts with such a code unit.
\<close>

definition word_start :: "jsstring \<Rightarrow> bool" where
  "word_start pre = (pre = [] \<or> \<not> is_word (last pre))"

definition word_end :: "jsstring \<Rightarrow> bool" where
  "word_end rest = (rest = [] \<or> \<not> is_word (hd rest))"

text \<open>Palindrome mention: "palindrom" at the start of a word.\<close>

definition mentions_palindrome :: "jsstring \<Rightarrow> bool" where
  "mentions_palindrome s =
     (\<exists>pre rest. s = pre @ js ''palindrom'' @ rest \<and> word_start pre)"

text \<open>Word-count mention, in one of three forms: the word "single" or "one" and, later
  on the same line, the word "word"; the phrase "word count is 1" between word ends; or a
  run of digits, white space and the word "word" or "words", the run starting a word.\<close>

definition mentions_one_word :: "jsstring \<Rightarrow> bool" where
  "mentions_one_word s =
     (\<exists>pre a mid rest. s = pre @ a @ mid @ js ''word'' @ rest
        \<and> (a = js ''single'' \<or> a = js ''one'') \<and> word_start pre
        \<and> mid \<noteq> [] \<and> \<not> is_word (hd mid) \<and> \<not> is_word (last mid)
        \<and> (\<forall>c \<in> set mid. \<not> is_line_terminator c) \<and> word_end rest)"

definition mentions_word_count_is_1 :: "jsstring \<Rightarrow> bool" where
  "mentions_word_count_is_1 s =
     (\<exists>pre rest. s = pre @ js ''word count is 1'' @ rest \<and> word_start pre \<and> word_end rest)"

definition mentions_n_words :: "jsstring \<Rightarrow> bool" where
  "mentions_n_words s =
     (\<exists>pre ds ws plural rest. s = pre @ ds @ ws @ js ''word'' @ plural @ rest
        \<and> ds \<noteq> [] \<and> (\<forall>c \<in> set ds. is_digit c) \<and> ws \<noteq> [] \<and> (\<forall>c \<in> set ws. is_space c)
        \<and> (plural = [] \<or> plural = js ''s'') \<and> word_start pre \<and> word_end rest)"

definition mentions_word_count :: "jsstring \<Rightarrow> bool" where
  "mentions_word_count s =
     (mentions_one_word s \<or> mentions_word_count_is_1 s \<or> mentions_n_words s)"

text \<open>Contains-letter mention: "contain", "contains" or "containing" at the start of a
  word, then optionally " the", then optionally " letter", then white space and one
  letter at which a word ends.\<close>

definition mentions_letter :: "jsstring \<Rightarrow> bool" where
  "mentions_letter s =
     (\<exists>pre ending the letter ws x rest.
        s = pre @ js ''contain'' @ ending @ the @ letter @ ws @ x # rest
        \<and> (ending = [] \<or> ending = js ''ing'' \<or> ending = js ''s'')
        \<and> (the = [] \<or> the = js '' the'') \<and> (letter = [] \<or> letter = js '' letter'')
        \<and> ws \<noteq> [] \<and> (\<forall>c \<in> set ws. is_space c) \<and> is_ascii_letter x
        \<and> word_start pre \<and> word_end rest)"

text \<open>
  The five recognizers as the specification words them (section 4.5), each a test for a
  substring of the lower-cased phrase: "palindrom"; "single word", "one word" or a digit
  followed by " word"; "longer than " followed by a digit; "shorter than " or
  "less than " followed by a digit; and "contain", "contains" or "containing", then
  optionally " the", then optionally " letter", then a blank and a letter.
\<close>

definition followed_by :: "jsstring \<Rightarrow> jsstring \<Rightarrow> jsstring \<Rightarrow> bool" where
  "followed_by s kw cs = list_ex (\<lambda>c. includes_str s (kw @ [c])) cs"

definition spec_palindrome_mention :: "jsstring \<Rightarrow> bool" where
  "spec_palindrome_mention s = includes_str s (js ''palindrom'')"

definition spec_word_count_mention :: "jsstring \<Rightarrow> bool" where
  "spec_word_count_mention s =
     (includes_str s (js ''single word'') \<or> includes_str s (js ''one word'')
      \<or> list_ex (\<lambda>d. includes_str s (d # js '' word'')) (js ''0123456789''))"

definition spec_longer_mention :: "jsstring \<Rightarrow> bool" where
  "spec_longer_mention s = followed_by s (js ''longer than '') (js ''0123456789'')"

definition spec_shorter_mention :: "jsstring \<Rightarrow> bool" where
  "spec_shorter_mention s =
     (followed_by s (js ''shorter than '') (js ''0123456789'')
      \<or> followed_by s (js ''less than '') (js ''0123456789''))"

definition spec_letter_mention :: "jsstring \<Rightarrow> bool" where
  "spec_letter_mention s =
     list_ex (\<lambda>kw. followed_by s (kw @ js '' '') (js ''abcdefghijklmnopqrstuvwxyz''))
       [js ''contain'' @ ending @ article @ noun.
          ending \<leftarrow> [[], js ''s'', js ''ing''], article \<leftarrow> [[], js '' the''],
          noun \<leftarrow> [[], js '' letter'']]"

definition spec_recognizers_fired :: "jsstring \<Rightarrow> nat" where
  "spec_recognizers_fired s = length (filter (\<lambda>b. b)
     [spec_palindrome_mention s, spec_word_count_mention s, spec_longer_mention s, spec_shorter_mention s, spec_letter_mention s])"

text \<open>The object \<open>parsed\<close> after the six assignments of
  \<open>parseNaturalLanguageQuery\<close>, for a lower-cased phrase.\<close>

definition parsed_of :: "runtime \<Rightarrow> jsstring \<Rightarrow> filter_set" where
  "parsed_of rt s = set_contains_character rt s
                     (set_max_length s
                       (set_min_length s
                         (set_is_palindrome s
                           (set_word_count_n s
                             (set_word_count_one s no_filters)))))"

text \<open>
  The first numeral that follows a keyword: the string is read from the left for the
  first position at a word boundary where one of the keywords is directly followed by a
  digit; the numeral is the whole run of digits there.
\<close>

definition numeral_after :: "jsstring \<Rightarrow> jsstring \<Rightarrow> jsstring option" where
  "numeral_after kw aft =
     (if prefix kw aft \<and> takeWhile is_digit (drop (length kw) aft) \<noteq> []
      then Some (takeWhile is_digit (drop (length kw) aft)) else None)"

fun first_some :: "('a \<Rightarrow> 'b option) \<Rightarrow> 'a list \<Rightarrow> 'b option" where
  "first_some f [] = None"
| "first_some f (x # xs) = (case f x of Some y \<Rightarrow> Some y | None \<Rightarrow> first_some f xs)"

definition numbered_here :: "jsstring list \<Rightarrow> jsstring \<Rightarrow> jsstring \<Rightarrow> jsstring option" where
  "numbered_here kws bef aft =
     (if at_word_boundary (MState bef aft Map.empty)
      then first_some (\<lambda>kw. numeral_after kw aft) kws else None)"

fun first_numbered :: "jsstring list \<Rightarrow> jsstring \<Rightarrow> jsstring \<Rightarrow> jsstring option" where
  "first_numbered kws bef [] = numbered_here kws bef []"
| "first_numbered kws bef (c # cs) =
     (case numbered_here kws bef (c # cs) of
        Some ds \<Rightarrow> Some ds
      | None \<Rightarrow> first_numbered kws (c # bef) cs)"

text \<open>A keyword occurs numbered in a string when the string holds it, directly followed
  by a digit, at its start or right after a code unit that is not a word character.\<close>

definition occurs_numbered :: "jsstring \<Rightarrow> jsstring \<Rightarrow> bool" where
  "occurs_numbered kw s =
     (\<exists>pre d rest. s = pre @ kw @ d # rest \<and> is_digit d \<and> (pre = [] \<or> \<not> is_word (last pre)))"

text \<open>Longer-than mention: "longer than " occurs numbered.  Shorter-than mention:
  "shorter than " or "less than " occurs numbered.  No recognizer fires when the phrase
  holds none of the five mentions.\<close>

definition mentions_longer :: "jsstring \<Rightarrow> bool" where
  "mentions_longer s = occurs_numbered (js ''longer than '') s"

definition mentions_shorter :: "jsstring \<Rightarrow> bool" where
  "mentions_shorter s =
     (occurs_numbered (js ''shorter than '') s \<or> occurs_numbered (js ''less than '') s)"

definition no_mention :: "jsstring \<Rightarrow> bool" where
  "no_mention s = (\<not> mentions_palindrome s \<and> \<not> mentions_word_count s \<and> \<not> mentions_longer s
     \<and> \<not> mentions_shorter s \<and> \<not> mentions_letter s)"

text \<open>A filter set is conflicting when both bounds are present and the minimum is
  greater than the maximum.\<close>

definition conflicting :: "filter_set \<Rightarrow> bool" where
  "conflicting f =
     (case fs_min_length f of
        IntVal a \<Rightarrow> (case fs_max_length f of IntVal b \<Rightarrow> num_gt a b | _ \<Rightarrow> False)
      | _ \<Rightarrow> False)"

section \<open>Examples\<close>

text \<open>A stored record for the closed examples below.\<close>

definition example_item :: "string \<Rightarrow> item" where
  "example_item s = analyzeString ascii_runtime (js ''2025-10-21T09:22:10.012Z'') (js s)"

text \<open>The query without parameters.\<close>

definition empty_query :: raw_query where
  "empty_query = \<lparr>q_is_palindrome = None, q_min_length = None, q_max_length = None,
     q_word_count = None, q_contains_character = None\<rparr>"

section \<open>The store: insertion and deletion\<close>

lemma findIndex_ge: "- 1 \<le> findIndex P xs"
  by (induction xs) (auto simp: Let_def)

lemma findIndex_none: "(findIndex P xs = - 1) = (\<forall>x \<in> set xs. \<not> P x)"
proof (induction xs)
  case Nil
  show ?case by simp
next
  case (Cons x xs)
  have "- 1 \<le> findIndex P xs" by (rule findIndex_ge)
  with Cons show ?case by (auto simp: Let_def)
qed

lemma findIndex_first:
  "findIndex P xs \<noteq> - 1 \<Longrightarrow>
     nat (findIndex P xs) < length xs \<and> P (xs ! nat (findIndex P xs))
     \<and> (\<forall>j < nat (findIndex P xs). \<not> P (xs ! j))"
proof (induction xs)
  case Nil
  then show ?case by simp
next
  case (Cons x xs)
  show ?case
  proof (cases "P x")
    case True
    then show ?thesis by simp
  next
    case False
    with Cons.prems have ne: "findIndex P xs \<noteq> - 1" by (auto simp: Let_def split: if_splits)
    have ge: "- 1 \<le> findIndex P xs" by (rule findIndex_ge)
    from ne ge have nn: "0 \<le> findIndex P xs" by linarith
    then have eq: "nat (findIndex P xs + 1) = Suc (nat (findIndex P xs))" by linarith
    from Cons.IH [OF ne] False ne eq show ?thesis
      by (auto simp: Let_def nth_Cons split: nat.splits)
  qed
qed

lemma splice1_length:
  "0 \<le> idx \<Longrightarrow> nat idx < length xs \<Longrightarrow> length (splice1 xs idx) + 1 = length xs"
  by (simp add: splice1_def)

lemma item_value_analyzeString [simp]: "item_value (analyzeString rt now v) = v"
  by (simp add: analyzeString_def Let_def)

lemma findByValue_None: "(findByValue strings v = None) = (\<forall>item \<in> set strings. item_value item \<noteq> v)"
  by (auto simp: findByValue_def find_None_iff)


lemma delete_by_index:
  assumes "idx = findIndex P strings" and "idx \<noteq> - 1"
  shows "\<exists>i < length strings. P (strings ! i) \<and> (\<forall>j < i. \<not> P (strings ! j))
           \<and> splice1 strings idx = take i strings @ drop (Suc i) strings
           \<and> length (splice1 strings idx) + 1 = length strings"
proof -
  let ?i = "nat idx"
  from assms findIndex_first [of P strings]
  have f: "?i < length strings" "P (strings ! ?i)" "\<forall>j < ?i. \<not> P (strings ! j)"
    by auto
  have s: "splice1 strings idx = take ?i strings @ drop (Suc ?i) strings"
    by (simp add: splice1_def)
  have l: "length (splice1 strings idx) + 1 = length strings"
    using f(1) by (simp add: splice1_def)
  from f s l show ?thesis by blast
qed

text \<open>
  Claim C10.  A deletion that succeeds removes exactly one record, the first in insertion
  order whose value matches the request; the records before and after it stay as they
  were and in their order, and the store is one record shorter.  This holds of the
  handler of \<open>server.js\<close> (exact match) and of the variant \<open>part_001\<close> (match of the
  lower-cased values).  The deletion succeeds exactly when some record matches, and a
  failed deletion leaves the store as it was.
\<close>

theorem deletion_removes_first_match:
  "(delete_string v strings = ((204, EmptyBody), strings') \<longrightarrow>
      (\<exists>i < length strings. item_value (strings ! i) = v
         \<and> (\<forall>j < i. item_value (strings ! j) \<noteq> v)
         \<and> strings' = take i strings @ drop (Suc i) strings
         \<and> length strings' + 1 = length strings))
   \<and> (delete_string_part_001 rt v strings = ((204, EmptyBody), strings') \<longrightarrow>
      (\<exists>i < length strings. toLowerCase rt (item_value (strings ! i)) = toLowerCase rt v
         \<and> (\<forall>j < i. toLowerCase rt (item_value (strings ! j)) \<noteq> toLowerCase rt v)
         \<and> strings' = take i strings @ drop (Suc i) strings
         \<and> length strings' + 1 = length strings))
   \<and> (fst (fst (delete_string v strings)) = 204) = (\<exists>item \<in> set strings. item_value item = v)
   \<and> (fst (fst (delete_string v strings)) \<noteq> 204 \<longrightarrow> snd (delete_string v strings) = strings)"
proof (intro conjI impI)
  assume a: "delete_string v strings = ((204, EmptyBody), strings')"
  let ?P = "\<lambda>item. item_value item = v"
  from a have ne: "findIndex ?P strings \<noteq> - 1"
    by (auto simp: delete_string_def Let_def split: if_splits)
  with a have s: "strings' = splice1 strings (findIndex ?P strings)"
    by (auto simp: delete_string_def Let_def)
  from delete_by_index [OF refl ne] s
  show "\<exists>i < length strings. item_value (strings ! i) = v
         \<and> (\<forall>j < i. item_value (strings ! j) \<noteq> v)
         \<and> strings' = take i strings @ drop (Suc i) strings
         \<and> length strings' + 1 = length strings"
    by simp
next
  assume a: "delete_string_part_001 rt v strings = ((204, EmptyBody), strings')"
  let ?P = "\<lambda>item. toLowerCase rt (item_value item) = toLowerCase rt v"
  from a have ne: "findIndex ?P strings \<noteq> - 1"
    by (auto simp: delete_string_part_001_def Let_def split: if_splits)
  with a have s: "strings' = splice1 strings (findIndex ?P strings)"
    by (auto simp: delete_string_part_001_def Let_def)
  from delete_by_index [OF refl ne] s
  show "\<exists>i < length strings. toLowerCase rt (item_value (strings ! i)) = toLowerCase rt v
         \<and> (\<forall>j < i. toLowerCase rt (item_value (strings ! j)) \<noteq> toLowerCase rt v)
         \<and> strings' = take i strings @ drop (Suc i) strings
         \<and> length strings' + 1 = length strings"
    by simp
next
  show "(fst (fst (delete_string v strings)) = 204) = (\<exists>item \<in> set strings. item_value item = v)"
    by (simp add: delete_string_def Let_def findIndex_none)
next
  assume "fst (fst (delete_string v strings)) \<noteq> 204"
  then show "snd (delete_string v strings) = strings"
    by (simp add: delete_string_def Let_def split: if_splits)
qed


lemma item_value_example_item: "item_value (example_item s) = js s"
  by (simp add: example_item_def)

theorem deletion_removes_first_match_witness:
  "delete_string (js ''cat'') [example_item ''Level'', example_item ''cat'', example_item ''dog'']
     = ((204, EmptyBody), [example_item ''Level'', example_item ''dog''])
   \<and> delete_string_part_001 ascii_runtime (js ''CAT'')
        [example_item ''Level'', example_item ''cat'', example_item ''dog'']
     = ((204, EmptyBody), [example_item ''Level'', example_item ''dog''])
   \<and> (\<exists>i < length [example_item ''Level'', example_item ''cat'', example_item ''dog''].
         item_value ([example_item ''Level'', example_item ''cat'', example_item ''dog''] ! i)
           = js ''cat''
         \<and> [example_item ''Level'', example_item ''dog'']
            = take i [example_item ''Level'', example_item ''cat'', example_item ''dog'']
              @ drop (Suc i) [example_item ''Level'', example_item ''cat'', example_item ''dog''])
   \<and> (\<exists>i < length [example_item ''Level'', example_item ''cat'', example_item ''dog''].
         ascii_lower (item_value ([example_item ''Level'', example_item ''cat'', example_item ''dog''] ! i))
           = ascii_lower (js ''CAT'')
         \<and> [example_item ''Level'', example_item ''dog'']
            = take i [example_item ''Level'', example_item ''cat'', example_item ''dog'']
              @ drop (Suc i) [example_item ''Level'', example_item ''cat'', example_item ''dog''])
   \<and> fst (fst (delete_string (js ''CAT'')
        [example_item ''Level'', example_item ''cat'', example_item ''dog''])) \<noteq> 204
   \<and> snd (delete_string (js ''CAT'')
        [example_item ''Level'', example_item ''cat'', example_item ''dog''])
      = [example_item ''Level'', example_item ''cat'', example_item ''dog'']"
proof -
  let ?S = "[example_item ''Level'', example_item ''cat'', example_item ''dog'']"
  let ?S' = "[example_item ''Level'', example_item ''dog'']"
  have h3: "fst (fst (delete_string (js ''CAT'') ?S)) \<noteq> 204"
    by (simp add: delete_string_def item_value_example_item js_def)
  from deletion_removes_first_match [of "js ''CAT''" ?S ?S' ascii_runtime] h3
  have c3: "snd (delete_string (js ''CAT'') ?S) = ?S"
    by blast
  have h1: "delete_string (js ''cat'') ?S = ((204, EmptyBody), ?S')"
    by (simp add: delete_string_def splice1_def item_value_example_item js_def)
  have h2: "delete_string_part_001 ascii_runtime (js ''CAT'') ?S = ((204, EmptyBody), ?S')"
    by (simp add: delete_string_part_001_def splice1_def item_value_example_item js_def
        ascii_runtime_def ascii_lower_def)
  have lc: "toLowerCase ascii_runtime = ascii_lower"
    by (simp add: ascii_runtime_def)
  from deletion_removes_first_match [of "js ''cat''" ?S ?S' ascii_runtime] h1
  have c1: "\<exists>i < length ?S. item_value (?S ! i) = js ''cat''
         \<and> ?S' = take i ?S @ drop (Suc i) ?S"
    by blast
  from deletion_removes_first_match [of "js ''CAT''" ?S ?S' ascii_runtime] h2
  have c2: "\<exists>i < length ?S. ascii_lower (item_value (?S ! i)) = ascii_lower (js ''CAT'')
         \<and> ?S' = take i ?S @ drop (Suc i) ?S"
    unfolding lc by blast
  from h1 h2 c1 c2 h3 c3 show ?thesis by blast
qed

lemma findByValue_after_insert:
  "findByValue (strings @ [analyzeString rt now v]) v \<noteq> None"
  by (simp add: findByValue_None)

text \<open>
  Claim C9.  Inserting a value that the store already holds (compared code unit by code
  unit, so case-sensitively) is answered with 409 and leaves the store, its size and its
  contents, as it was; in particular a second insertion of the same value, right after a
  first one, is rejected and changes nothing.
\<close>

theorem duplicate_insertion_rejected:
  "((\<exists>item \<in> set strings. item_value item = v) \<longrightarrow>
       post_strings rt now (JString v) strings
         = ((409, ErrorBody ''String already exists in the system''), strings))
   \<and> (let strings1 = snd (post_strings rt now (JString v) strings)
      in post_strings rt now' (JString v) strings1
         = ((409, ErrorBody ''String already exists in the system''), strings1))"
proof (intro conjI impI)
  assume "\<exists>item \<in> set strings. item_value item = v"
  then have "findByValue strings v \<noteq> None" by (simp add: findByValue_None)
  then show "post_strings rt now (JString v) strings
         = ((409, ErrorBody ''String already exists in the system''), strings)"
    by (auto simp: post_strings_def)
next
  show "let strings1 = snd (post_strings rt now (JString v) strings)
      in post_strings rt now' (JString v) strings1
         = ((409, ErrorBody ''String already exists in the system''), strings1)"
  proof (cases "findByValue strings v")
    case None
    with findByValue_after_insert [of strings rt now v] show ?thesis
      by (auto simp: post_strings_def Let_def)
  next
    case (Some a)
    then show ?thesis by (simp add: post_strings_def Let_def)
  qed
qed

theorem duplicate_insertion_rejected_witness:
  "post_strings ascii_runtime (js ''t2'') (JString (js ''level'')) [example_item ''cat'', example_item ''level'']
     = ((409, ErrorBody ''String already exists in the system''),
        [example_item ''cat'', example_item ''level''])"
proof -
  have "\<exists>item \<in> set [example_item ''cat'', example_item ''level'']. item_value item = js ''level''"
    by (simp add: item_value_example_item)
  with duplicate_insertion_rejected
    [of "[example_item ''cat'', example_item ''level'']" "js ''level''" ascii_runtime "js ''t2''"]
  show ?thesis by blast
qed

text \<open>
  Claim C1.  Insert "Level" into the empty store and ask for the deletion of "LEVEL".
  The delete handler of \<open>server.js\<close> compares the stored value with the requested one
  by \<open>===\<close>: it answers 404 and the record stays in the store.  The delete handler of
  the variant \<open>part_001\<close> lower-cases both sides: it answers 204 and the store is empty
  afterwards.  The duplicate check is case-sensitive in both: inserting "level" after
  "Level" is answered with 201 and the store holds two records.
\<close>

theorem deletion_case_sensitive_in_server_js:
  "delete_string (js ''LEVEL'')
     (snd (post_strings ascii_runtime (js ''t1'') (JString (js ''Level'')) []))
   = ((404, ErrorBody ''String does not exist in the system''),
      snd (post_strings ascii_runtime (js ''t1'') (JString (js ''Level'')) []))
   \<and> delete_string_part_001 ascii_runtime (js ''LEVEL'')
     (snd (post_strings ascii_runtime (js ''t1'') (JString (js ''Level'')) []))
   = ((204, EmptyBody), [])
   \<and> fst (fst (post_strings ascii_runtime (js ''t2'') (JString (js ''level''))
       (snd (post_strings ascii_runtime (js ''t1'') (JString (js ''Level'')) [])))) = 201
   \<and> length (snd (post_strings ascii_runtime (js ''t2'') (JString (js ''level''))
       (snd (post_strings ascii_runtime (js ''t1'') (JString (js ''Level'')) [])))) = 2"
  by (simp add: delete_string_def delete_string_part_001_def post_strings_def findByValue_def
      Let_def js_def splice1_def ascii_runtime_def ascii_lower_def)

section \<open>The analyzer: length, palindrome, words and characters\<close>

lemma star_greedy_Some:
  "star_greedy p Some bef aft caps
     = Some (MState (rev (takeWhile p aft) @ bef) (dropWhile p aft) caps)"
  by (induction aft arbitrary: bef) auto

lemma length_minus_dropWhile:
  "length xs - length (dropWhile p xs) = length (takeWhile p xs)"
proof -
  have "length (takeWhile p xs @ dropWhile p xs) = length xs" by simp
  then have "length (takeWhile p xs) + length (dropWhile p xs) = length xs"
    by (simp only: length_append)
  then show ?thesis by arith
qed

lemma match_len_spaces:
  "match_len (Plus is_space) bef aft =
     (case aft of [] \<Rightarrow> None
      | c # cs \<Rightarrow> if is_space c then Some (Suc (length (takeWhile is_space cs))) else None)"
  by (cases aft) (auto simp: match_len_def match_here_def star_greedy_Some
      length_minus_dropWhile Suc_diff_le length_dropWhile_le)

lemma pieces_skip_spaces:
  "filter (\<lambda>t. t \<noteq> []) (pieces [] (dropWhile is_space cs)) = filter (\<lambda>t. t \<noteq> []) (pieces [] cs)"
  by (induction cs) auto

lemma drop_takeWhile_length: "drop (length (takeWhile p xs)) xs = dropWhile p xs"
  by (induction xs) auto

lemma split_loop_spaces:
  "filter (\<lambda>t. t \<noteq> []) (split_loop (Plus is_space) tok bef aft)
     = filter (\<lambda>t. t \<noteq> []) (pieces tok aft)"
proof (induction "Plus is_space" tok bef aft rule: split_loop.induct)
  case (1 tok bef)
  show ?case by simp
next
  case (2 tok bef c cs)
  show ?case
  proof (cases "is_space c")
    case False
    then have ml: "match_len (Plus is_space) bef (c # cs) = None"
      by (simp add: match_len_spaces)
    from 2(1) [OF ml] False ml show ?thesis by simp
  next
    case True
    let ?n = "Suc (length (takeWhile is_space cs))"
    from True have ml: "match_len (Plus is_space) bef (c # cs) = Some ?n"
      by (simp add: match_len_spaces)
    have nz: "\<not> (?n = 0 \<and> tok = [])" by simp
    have dr: "drop ?n (c # cs) = dropWhile is_space cs"
      by (simp add: drop_takeWhile_length)
    from 2(3) [OF ml nz]
    have ih: "filter (\<lambda>t. t \<noteq> []) (split_loop (Plus is_space) [] (rev (take ?n (c # cs)) @ bef)
                 (drop ?n (c # cs)))
              = filter (\<lambda>t. t \<noteq> []) (pieces [] (drop ?n (c # cs)))" .
    have "split_loop (Plus is_space) tok bef (c # cs)
           = rev tok # split_loop (Plus is_space) [] (rev (take ?n (c # cs)) @ bef) (drop ?n (c # cs))"
      using ml by (simp del: drop_Suc_Cons take_Suc_Cons)
    then have "filter (\<lambda>t. t \<noteq> []) (split_loop (Plus is_space) tok bef (c # cs))
           = filter (\<lambda>t. t \<noteq> []) (rev tok # pieces [] (dropWhile is_space cs))"
      using ih dr by (simp del: drop_Suc_Cons take_Suc_Cons split_loop.simps)
    also have "\<dots> = filter (\<lambda>t. t \<noteq> []) (pieces tok (c # cs))"
      using True pieces_skip_spaces [of cs] by simp
    finally show ?thesis .
  qed
qed

lemma word_count_analyzeString:
  "word_count (item_properties (analyzeString rt now s)) = spec_word_count s"
proof (cases "trim s = []")
  case True
  then show ?thesis by (simp add: analyzeString_def Let_def spec_word_count_def)
next
  case False
  then show ?thesis
    by (simp add: analyzeString_def Let_def spec_word_count_def split_re_def split_loop_spaces)
qed

lemma all_dropWhile: "(\<forall>x \<in> set (dropWhile p xs). p x) = (\<forall>x \<in> set xs. p x)"
proof
  assume a: "\<forall>x \<in> set (dropWhile p xs). p x"
  have "dropWhile p xs = []"
  proof (rule ccontr)
    assume ne: "dropWhile p xs \<noteq> []"
    then have "\<not> p (hd (dropWhile p xs))" by (rule hd_dropWhile)
    moreover from ne have "hd (dropWhile p xs) \<in> set (dropWhile p xs)" by simp
    ultimately show False using a by blast
  qed
  then show "\<forall>x \<in> set xs. p x" by (simp add: dropWhile_eq_Nil_conv)
next
  assume "\<forall>x \<in> set xs. p x"
  then show "\<forall>x \<in> set (dropWhile p xs). p x" by (auto dest: set_dropWhileD)
qed

lemma all_trim: "(\<forall>c \<in> set (trim s). is_space c) = (\<forall>c \<in> set s. is_space c)"
  by (simp add: trim_def all_dropWhile)

lemma pieces_nonempty_tok: "tok \<noteq> [] \<Longrightarrow> filter (\<lambda>t. t \<noteq> []) (pieces tok cs) \<noteq> []"
  by (induction cs arbitrary: tok) auto

lemma pieces_none: "(filter (\<lambda>t. t \<noteq> []) (pieces [] cs) = []) = (\<forall>c \<in> set cs. is_space c)"
  by (induction cs) (auto simp: pieces_nonempty_tok)

lemma spec_word_count_zero: "(spec_word_count s = 0) = (\<forall>c \<in> set s. is_space c)"
  by (simp add: spec_word_count_def pieces_none all_trim)


lemma join_reverse_split: "concat (rev (map (\<lambda>c. [c]) xs)) = rev xs"
  by (induction xs) auto

text \<open>
  Claim C7.  For every string, the analyzer's \<open>length\<close> is the number of code units;
  \<open>is_palindrome\<close> says whether the lower-cased string equals its own reversal, with
  nothing stripped; \<open>word_count\<close> is the number of non-empty white-space-delimited
  pieces of the trimmed string, and it is 0 exactly for the strings (the empty one among
  them) that consist of white space only.
\<close>

theorem analyzer_length_palindrome_word_count:
  "str_length (item_properties (analyzeString rt now s)) = length s
   \<and> is_palindrome (item_properties (analyzeString rt now s))
       = (toLowerCase rt s = rev (toLowerCase rt s))
   \<and> word_count (item_properties (analyzeString rt now s)) = spec_word_count s
   \<and> (word_count (item_properties (analyzeString rt now s)) = 0) = (\<forall>c \<in> set s. is_space c)"
proof (intro conjI)
  show "str_length (item_properties (analyzeString rt now s)) = length s"
    by (simp add: analyzeString_def Let_def)
  show "is_palindrome (item_properties (analyzeString rt now s))
       = (toLowerCase rt s = rev (toLowerCase rt s))"
    by (simp add: analyzeString_def Let_def join_reverse_split)
  show "word_count (item_properties (analyzeString rt now s)) = spec_word_count s"
    by (rule word_count_analyzeString)
  show "(word_count (item_properties (analyzeString rt now s)) = 0) = (\<forall>c \<in> set s. is_space c)"
    by (simp only: word_count_analyzeString spec_word_count_zero)
qed

theorem analyzer_length_palindrome_word_count_witness:
  "word_count (item_properties (analyzeString ascii_runtime [] (js ''   ''))) = 0
   \<and> word_count (item_properties (analyzeString ascii_runtime [] (js ''hello world''))) \<noteq> 0"
proof -
  have a: "\<forall>c \<in> set (js ''   ''). is_space c" by (simp add: js_def is_space_def)
  have b: "\<not> (\<forall>c \<in> set (js ''hello world''). is_space c)" by (simp add: js_def is_space_def)
  from analyzer_length_palindrome_word_count [of ascii_runtime "[]" "js ''   ''"] a
    analyzer_length_palindrome_word_count [of ascii_runtime "[]" "js ''hello world''"] b
  show ?thesis by blast
qed

text \<open>The two scenarios of the analyzer: "level" has three distinct characters.\<close>

lemma example_level:
  "str_length (item_properties (example_item ''level'')) = 5
   \<and> is_palindrome (item_properties (example_item ''level''))
   \<and> unique_characters (item_properties (example_item ''level'')) = 3
   \<and> word_count (item_properties (example_item ''level'')) = 1"
  by code_simp

lemma example_hello_world:
  "word_count (item_properties (example_item ''hello world'')) = 2
   \<and> \<not> is_palindrome (item_properties (example_item ''hello world''))"
  by code_simp

lemma fold_count_char:
  "fold count_char xs m k =
     (if k \<in> set xs then Some (count_list xs k + (case m k of None \<Rightarrow> 0 | Some n \<Rightarrow> n))
      else m k)"
  by (induction xs arbitrary: m) (auto simp: count_char_def)

lemma frequency_map_lookup:
  "fold count_char xs Map.empty k = (if k \<in> set xs then Some (count_list xs k) else None)"
  by (simp add: fold_count_char)

lemma frequency_map_dom: "dom (fold count_char xs Map.empty) = set xs"
  by (auto simp: frequency_map_lookup dom_def)

lemma frequency_map_sum: "sum_counts (fold count_char xs Map.empty) = length xs"
proof -
  have "sum_counts (fold count_char xs Map.empty) = (\<Sum>k \<in> set xs. count_list xs k)"
    unfolding sum_counts_def frequency_map_dom
    by (rule sum.cong) (simp_all add: frequency_map_lookup)
  also have "\<dots> = length xs" by (rule sum_count_set) simp_all
  finally show ?thesis .
qed

lemma code_points_no_pair:
  "\<not> has_surrogate_pair s \<Longrightarrow> code_points s = map (\<lambda>c. [c]) s"
  by (induction s rule: code_points.induct) auto

lemma code_points_length: "length (code_points s) \<le> length s"
  by (induction s rule: code_points.induct) auto

lemma concat_code_points: "concat (code_points s) = s"
  by (induction s rule: code_points.induct) auto

lemma card_singletons: "card (set (map (\<lambda>c. [c]) s)) = card (set s)"
proof -
  have "inj_on (\<lambda>c. [c]) (set s)" by (simp add: inj_on_def)
  then show ?thesis by (simp add: card_image)
qed

text \<open>
  Claim C8, as the code has it.  The analyzer counts with the string iterator, which
  yields code points: \<open>unique_characters\<close> is the number of distinct code points, the
  keys of the frequency map are the code points, each with its number of occurrences,
  and the counts sum to the number of code points, which is at most \<open>length\<close>.  For
  a string without a surrogate pair the code points are the code units:
  \<open>unique_characters\<close> is then the number of distinct code units, the keys are the
  single code units, and the counts sum to \<open>length\<close>.
\<close>

theorem analyzer_counts_code_points:
  "unique_characters (item_properties (analyzeString rt now s)) = card (set (code_points s))
   \<and> dom (character_frequency_map (item_properties (analyzeString rt now s)))
       = set (code_points s)
   \<and> (\<forall>k \<in> set (code_points s).
        character_frequency_map (item_properties (analyzeString rt now s)) k
          = Some (count_list (code_points s) k))
   \<and> sum_counts (character_frequency_map (item_properties (analyzeString rt now s)))
       = length (code_points s)
   \<and> length (code_points s) \<le> str_length (item_properties (analyzeString rt now s))
   \<and> (\<not> has_surrogate_pair s \<longrightarrow>
        unique_characters (item_properties (analyzeString rt now s)) = card (set s)
        \<and> dom (character_frequency_map (item_properties (analyzeString rt now s)))
            = (\<lambda>c. [c]) ` set s
        \<and> sum_counts (character_frequency_map (item_properties (analyzeString rt now s)))
            = str_length (item_properties (analyzeString rt now s)))"
proof -
  let ?p = "item_properties (analyzeString rt now s)"
  have u: "unique_characters ?p = card (set (code_points s))"
    by (simp add: analyzeString_def Let_def length_remdups_card_conv)
  have f: "character_frequency_map ?p = fold count_char (code_points s) Map.empty"
    by (simp add: analyzeString_def Let_def)
  have l: "str_length ?p = length s"
    by (simp add: analyzeString_def Let_def)
  have d: "dom (character_frequency_map ?p) = set (code_points s)"
    by (simp only: f frequency_map_dom)
  have c: "\<forall>k \<in> set (code_points s). character_frequency_map ?p k
          = Some (count_list (code_points s) k)"
    by (simp add: f frequency_map_lookup)
  have sm: "sum_counts (character_frequency_map ?p) = length (code_points s)"
    by (simp only: f frequency_map_sum)
  have le: "length (code_points s) \<le> str_length ?p"
    by (simp only: l code_points_length)
  have np: "\<not> has_surrogate_pair s \<longrightarrow>
        unique_characters ?p = card (set s)
        \<and> dom (character_frequency_map ?p) = (\<lambda>c. [c]) ` set s
        \<and> sum_counts (character_frequency_map ?p) = str_length ?p"
  proof
    assume "\<not> has_surrogate_pair s"
    then have cp: "code_points s = map (\<lambda>c. [c]) s" by (rule code_points_no_pair)
    have 1: "unique_characters ?p = card (set s)"
      by (simp only: u cp card_singletons)
    have 2: "dom (character_frequency_map ?p) = (\<lambda>c. [c]) ` set s"
      by (simp only: d cp set_map)
    have 3: "sum_counts (character_frequency_map ?p) = str_length ?p"
      by (simp only: sm cp l length_map)
    from 1 2 3 show "unique_characters ?p = card (set s)
        \<and> dom (character_frequency_map ?p) = (\<lambda>c. [c]) ` set s
        \<and> sum_counts (character_frequency_map ?p) = str_length ?p"
      by blast
  qed
  from u d c sm le np show ?thesis by blast
qed

text \<open>
  The claim as stated fails on a surrogate pair (U+1F600): two code units, one distinct
  "character", one key of two code units, and counts that sum to 1, not to the length 2.
\<close>

theorem analyzer_code_units_counterexample:
  "str_length (item_properties (analyzeString ascii_runtime [] [0xD83D, 0xDE00])) = 2
   \<and> unique_characters (item_properties (analyzeString ascii_runtime [] [0xD83D, 0xDE00])) = 1
   \<and> card (set [0xD83D, 0xDE00 :: code_unit]) = 2
   \<and> dom (character_frequency_map (item_properties (analyzeString ascii_runtime [] [0xD83D, 0xDE00])))
       = {[0xD83D, 0xDE00]}
   \<and> sum_counts (character_frequency_map
         (item_properties (analyzeString ascii_runtime [] [0xD83D, 0xDE00]))) = 1"
  by (simp add: analyzeString_def Let_def is_high_surrogate_def is_low_surrogate_def
      count_char_def sum_counts_def)

theorem analyzer_counts_code_points_witness:
  "\<not> has_surrogate_pair (js ''level'')
   \<and> unique_characters (item_properties (example_item ''level'')) = card (set (js ''level''))
   \<and> sum_counts (character_frequency_map (item_properties (example_item ''level''))) = 5
   \<and> character_frequency_map (item_properties (example_item ''level'')) (js ''l'') = Some 2"
proof -
  have h: "\<not> has_surrogate_pair (js ''level'')"
    by (simp add: js_def is_high_surrogate_def is_low_surrogate_def)
  have cp: "code_points (js ''level'') = map (\<lambda>c. [c]) (js ''level'')"
    using h by (rule code_points_no_pair)
  have k: "js ''l'' \<in> set (code_points (js ''level''))"
    unfolding cp by (simp add: js_def)
  have cnt: "count_list (code_points (js ''level'')) (js ''l'') = 2"
    unfolding cp by (simp add: js_def)
  have len: "str_length (item_properties (example_item ''level'')) = 5"
    by (simp add: example_item_def analyzeString_def Let_def js_def)
  from analyzer_counts_code_points [of ascii_runtime "js ''2025-10-21T09:22:10.012Z''" "js ''level''"]
    h k cnt len
  show ?thesis unfolding example_item_def by auto
qed

section \<open>Filtering by query parameters: the engine and the integer parameters\<close>

lemma parseIntOrNull_Undefined: "(parseIntOrNull v = Undefined) = (v = None)"
  by (simp add: parseIntOrNull_def split: option.splits)

lemma filter_steps:
  "filter_contains_character rt cc
     (filter_word_count wc
       (filter_max_length maxLen
         (filter_min_length minLen
           (filter_is_palindrome p (strings, no_filters)))))
   = (filter (satisfies rt
         \<lparr>fs_is_palindrome = map_option (\<lambda>v. v = js ''true'') p, fs_min_length = minLen,
          fs_max_length = maxLen, fs_word_count = wc,
          fs_contains_character = map_option (toLowerCase rt) cc\<rparr>) strings,
      \<lparr>fs_is_palindrome = map_option (\<lambda>v. v = js ''true'') p, fs_min_length = minLen,
          fs_max_length = maxLen, fs_word_count = wc,
          fs_contains_character = map_option (toLowerCase rt) cc\<rparr>)"
  by (cases p; cases cc)
     (auto simp: filter_contains_character_def filter_word_count_def filter_max_length_def
       filter_min_length_def filter_is_palindrome_def no_filters_def satisfies_def Let_def
       intro!: filter_cong)

lemma valid_query_parsed:
  "valid_query q =
     ((q_is_palindrome q = None \<or> q_is_palindrome q = Some (js ''true'')
         \<or> q_is_palindrome q = Some (js ''false''))
      \<and> (q_min_length q = None \<or> parseIntOrNull (q_min_length q) \<noteq> Null)
      \<and> (q_max_length q = None \<or> parseIntOrNull (q_max_length q) \<noteq> Null)
      \<and> (q_word_count q = None \<or> parseIntOrNull (q_word_count q) \<noteq> Null)
      \<and> (case q_contains_character q of None \<Rightarrow> True | Some c \<Rightarrow> length c = 1))"
  by (simp add: valid_query_def int_param_def parseIntOrNull_def split: option.splits)

lemma satisfies_requested:
  "valid_query q \<Longrightarrow> satisfies rt (query_filters rt q) item = requested rt q item"
  by (auto simp: valid_query_def int_param_def satisfies_def requested_def query_filters_def
      parseIntOrNull_def split: option.splits)

lemma get_strings_valid:
  assumes "valid_query q"
  shows "get_strings rt q strings
     = ((200, CollectionBody (filter (requested rt q) strings)
           (length (filter (requested rt q) strings)) (query_filters rt q)), strings)"
proof -
  have f: "filter (satisfies rt (query_filters rt q)) strings = filter (requested rt q) strings"
    using assms by (simp add: satisfies_requested cong: filter_cong)
  from assms have "get_strings rt q strings
     = ((200, CollectionBody (filter (satisfies rt (query_filters rt q)) strings)
           (length (filter (satisfies rt (query_filters rt q)) strings)) (query_filters rt q)),
        strings)"
    unfolding valid_query_parsed
    by (auto simp: get_strings_def Let_def filter_steps query_filters_def split: option.splits)
  then show ?thesis unfolding f .
qed

lemma get_strings_invalid:
  assumes "\<not> valid_query q"
  shows "fst (fst (get_strings rt q strings)) = 400"
  using assms unfolding valid_query_parsed
  by (auto simp: get_strings_def Let_def split: option.splits)

text \<open>
  Claim C5.  \<open>GET /strings\<close> without any filter returns the records of the store as
  they are.  For every valid query it answers 200 with exactly the records of the store
  that meet every parameter of the query (the filters combine conjunctively; an absent
  parameter constrains nothing), in the order of the store, with their number and with
  the converted parameters as \<open>filters_applied\<close>; for every other query it answers 400.
  So whenever it answers with a collection, the records returned are those that meet the
  query, which are also those that satisfy every filter reported; they form a
  subsequence of the store, without reordering or duplication.  The handler leaves the
  store as it was.
\<close>

theorem filter_engine_conjunctive_subsequence:
  "get_strings rt empty_query strings
      = ((200, CollectionBody strings (length strings) no_filters), strings)
   \<and> (valid_query q \<longrightarrow>
        get_strings rt q strings
          = ((200, CollectionBody (filter (requested rt q) strings)
                (length (filter (requested rt q) strings)) (query_filters rt q)), strings))
   \<and> (\<not> valid_query q \<longrightarrow> fst (fst (get_strings rt q strings)) = 400)
   \<and> (get_strings rt q strings = ((200, CollectionBody results n filters_applied), strings') \<longrightarrow>
        valid_query q \<and> results = filter (requested rt q) strings
        \<and> filters_applied = query_filters rt q
        \<and> results = filter (satisfies rt filters_applied) strings
        \<and> n = length results \<and> subseq results strings)
   \<and> subseq (filter (requested rt q) strings) strings
   \<and> snd (get_strings rt q strings) = strings"
proof -
  have 1: "get_strings rt empty_query strings
      = ((200, CollectionBody strings (length strings) no_filters), strings)"
    by (simp add: get_strings_def empty_query_def parseIntOrNull_def Let_def
        filter_contains_character_def filter_word_count_def filter_max_length_def
        filter_min_length_def filter_is_palindrome_def)
  have 3: "snd (get_strings rt q strings) = strings"
    by (simp add: get_strings_def Let_def)
  have 2: "valid_query q \<and> results = filter (requested rt q) strings
        \<and> filters_applied = query_filters rt q
        \<and> results = filter (satisfies rt filters_applied) strings
        \<and> n = length results \<and> subseq results strings"
    if a: "get_strings rt q strings = ((200, CollectionBody results n filters_applied), strings')"
  proof -
    have v: "valid_query q"
    proof (rule ccontr)
      assume "\<not> valid_query q"
      then have "fst (fst (get_strings rt q strings)) = 400" by (rule get_strings_invalid)
      with a show False by simp
    qed
    from a get_strings_valid [OF v, of rt strings]
    have r: "results = filter (requested rt q) strings \<and> filters_applied = query_filters rt q
      \<and> n = length results"
      by auto
    have "filter (satisfies rt (query_filters rt q)) strings = filter (requested rt q) strings"
      using v by (simp add: satisfies_requested cong: filter_cong)
    with v r show ?thesis by simp
  qed
  then have 4: "get_strings rt q strings = ((200, CollectionBody results n filters_applied), strings') \<longrightarrow>
        valid_query q \<and> results = filter (requested rt q) strings
        \<and> filters_applied = query_filters rt q
        \<and> results = filter (satisfies rt filters_applied) strings
        \<and> n = length results \<and> subseq results strings"
    by (rule impI)
  have 5: "valid_query q \<longrightarrow>
        get_strings rt q strings
          = ((200, CollectionBody (filter (requested rt q) strings)
                (length (filter (requested rt q) strings)) (query_filters rt q)), strings)"
    by (rule impI) (rule get_strings_valid)
  have 6: "\<not> valid_query q \<longrightarrow> fst (fst (get_strings rt q strings)) = 400"
    by (rule impI) (rule get_strings_invalid)
  have 7: "subseq (filter (requested rt q) strings) strings"
    by simp
  show ?thesis by (intro conjI 1 5 6 4 7 3)
qed

lemma to_number_small: "\<bar>i\<bar> < 2 ^ 53 \<Longrightarrow> to_number i = Num i"
  by (auto simp: to_number_def round_double_def Let_def)

lemma parseInt10_3: "parseInt10 (js ''3'') = Some (Num 3)"
  by (simp add: parseInt10_def js_def is_space_def is_digit_def
      digits_value_def digit_value_def to_number_small)

lemma parseInt10_10: "parseInt10 (js ''10'') = Some (Num 10)"
  by (simp add: parseInt10_def js_def is_space_def is_digit_def
      digits_value_def digit_value_def to_number_small)

lemma parseInt10_abc: "parseInt10 (js ''abc'') = None"
  by (simp add: parseInt10_def js_def is_space_def is_digit_def)

lemma example_item_length: "str_length (item_properties (example_item s)) = length s"
  by (simp add: example_item_def analyzeString_def Let_def js_def)

lemma example_item_palindrome:
  "is_palindrome (item_properties (example_item s)) = (ascii_lower (js s) = rev (ascii_lower (js s)))"
  by (simp add: example_item_def analyzeString_def Let_def ascii_runtime_def join_reverse_split)

theorem filter_engine_conjunctive_subsequence_witness:
  "get_strings ascii_runtime scenario_query [example_item ''level'', example_item ''cat'']
    = ((200, CollectionBody [example_item ''level''] 1
         \<lparr>fs_is_palindrome = Some True, fs_min_length = IntVal (Num 3),
          fs_max_length = IntVal (Num 10), fs_word_count = Undefined,
          fs_contains_character = None\<rparr>),
       [example_item ''level'', example_item ''cat''])
   \<and> subseq [example_item ''level''] [example_item ''level'', example_item ''cat'']
   \<and> fst (fst (get_strings ascii_runtime malformed_query
         [example_item ''level'', example_item ''cat''])) = 400"
proof -
  let ?S = "[example_item ''level'', example_item ''cat'']"
  have p1: "is_palindrome (item_properties (example_item ''level''))"
    by (simp add: example_item_palindrome ascii_lower_def js_def)
  have p2: "\<not> is_palindrome (item_properties (example_item ''cat''))"
    by (simp add: example_item_palindrome ascii_lower_def js_def)
  have v: "valid_query scenario_query"
    by (simp add: valid_query_def int_param_def scenario_query_def parseInt10_3 parseInt10_10)
  have nv: "\<not> valid_query malformed_query"
    by (simp add: valid_query_def int_param_def malformed_query_def parseInt10_abc)
  have r: "filter (requested ascii_runtime scenario_query) ?S = [example_item ''level'']"
    by (simp add: requested_def int_param_def scenario_query_def parseInt10_3 parseInt10_10
        example_item_length p1 p2)
  have f: "query_filters ascii_runtime scenario_query
      = \<lparr>fs_is_palindrome = Some True, fs_min_length = IntVal (Num 3),
          fs_max_length = IntVal (Num 10), fs_word_count = Undefined,
          fs_contains_character = None\<rparr>"
    by (simp add: query_filters_def scenario_query_def parseIntOrNull_def parseInt10_3
        parseInt10_10)
  from filter_engine_conjunctive_subsequence [of ascii_runtime ?S scenario_query] v
  have a: "get_strings ascii_runtime scenario_query ?S
          = ((200, CollectionBody (filter (requested ascii_runtime scenario_query) ?S)
                (length (filter (requested ascii_runtime scenario_query) ?S))
                (query_filters ascii_runtime scenario_query)), ?S)"
    and s: "subseq (filter (requested ascii_runtime scenario_query) ?S) ?S"
    by blast+
  from filter_engine_conjunctive_subsequence [of ascii_runtime ?S malformed_query] nv
  have b: "fst (fst (get_strings ascii_runtime malformed_query ?S)) = 400"
    by blast
  from a s b show ?thesis unfolding r f by simp
qed

lemma digit_not_space: "is_digit c \<Longrightarrow> \<not> is_space c"
  by (auto simp: is_digit_def is_space_def word_le_nat_alt)

lemma digit_not_sign: "is_digit c \<Longrightarrow> c \<noteq> 0x2B \<and> c \<noteq> 0x2D"
  by (auto simp: is_digit_def)

lemma sign_not_space: "\<not> is_space 0x2B" "\<not> is_space 0x2D"
  by (simp_all add: is_space_def)

lemma takeWhile_digits:
  assumes "\<forall>c \<in> set ds. is_digit c" and "rest = [] \<or> \<not> is_digit (hd rest)"
  shows "takeWhile is_digit (ds @ rest) = ds"
proof -
  from assms(2) have "takeWhile is_digit rest = []" by (cases rest) auto
  with assms(1) show ?thesis by (simp add: takeWhile_append2)
qed

lemma parseInt10_prefix:
  assumes "int_prefix ws sg ds rest"
  shows "parseInt10 (ws @ sg @ ds @ rest)
     = Some (to_number (if sg = [0x2D] then - digits_value ds else digits_value ds))"
proof -
  from assms have ws: "\<forall>c \<in> set ws. is_space c"
    and sg: "sg = [] \<or> sg = [0x2B] \<or> sg = [0x2D]"
    and ne: "ds \<noteq> []" and ds: "\<forall>c \<in> set ds. is_digit c"
    and rest: "rest = [] \<or> \<not> is_digit (hd rest)"
    by (auto simp: int_prefix_def)
  from ne obtain d ds' where dd: "ds = d # ds'" by (cases ds) auto
  with ds have d: "is_digit d" by simp
  have tw: "takeWhile is_digit (ds @ rest) = ds" using ds rest by (rule takeWhile_digits)
  have "dropWhile is_space (ws @ sg @ ds @ rest) = dropWhile is_space (sg @ ds @ rest)"
    using ws by (simp add: dropWhile_append2)
  also have "\<dots> = sg @ ds @ rest"
    using sg dd digit_not_space [OF d] sign_not_space by auto
  finally have dw: "dropWhile is_space (ws @ sg @ ds @ rest) = sg @ ds @ rest" .
  from sg show ?thesis
  proof (elim disjE)
    assume "sg = []"
    then show ?thesis
      using dw tw ne dd digit_not_sign [OF d]
      by (simp add: parseInt10_def Let_def)
  next
    assume "sg = [0x2B]"
    then show ?thesis
      using dw tw ne by (simp add: parseInt10_def Let_def)
  next
    assume "sg = [0x2D]"
    then show ?thesis
      using dw tw ne by (simp add: parseInt10_def Let_def)
  qed
qed

lemma parseInt10_Some_prefix:
  assumes "parseInt10 v = Some n"
  shows "\<exists>ws sg ds rest. v = ws @ sg @ ds @ rest \<and> int_prefix ws sg ds rest"
proof -
  let ?s = "dropWhile is_space v"
  let ?sg = "if ?s \<noteq> [] \<and> (hd ?s = 0x2B \<or> hd ?s = 0x2D) then [hd ?s] else []"
  let ?s' = "if ?s \<noteq> [] \<and> (hd ?s = 0x2B \<or> hd ?s = 0x2D) then tl ?s else ?s"
  let ?ds = "takeWhile is_digit ?s'"
  let ?rest = "dropWhile is_digit ?s'"
  from assms have ne: "?ds \<noteq> []"
    by (auto simp: parseInt10_def Let_def split: if_splits)
  have v: "v = takeWhile is_space v @ ?sg @ ?ds @ ?rest"
  proof -
    have "?s = ?sg @ ?s'" by (cases ?s) auto
    also have "?s' = ?ds @ ?rest" by simp
    finally have "?s = ?sg @ ?ds @ ?rest" .
    moreover have "v = takeWhile is_space v @ ?s" by simp
    ultimately show ?thesis by metis
  qed
  have r: "?rest = [] \<or> \<not> is_digit (hd ?rest)"
    using hd_dropWhile [of is_digit ?s'] by blast
  have "int_prefix (takeWhile is_space v) ?sg ?ds ?rest"
    unfolding int_prefix_def using ne r
    by (auto dest: set_takeWhileD)
  with v show ?thesis by blast
qed

text \<open>
  Claim C6, as the code has it.  A provided \<open>min_length\<close>, \<open>max_length\<close> or
  \<open>word_count\<close> is read by \<open>parseInt(v, 10)\<close>: leading white space is skipped, an
  optional sign is read, and the longest run of decimal digits that follows is the value,
  whatever comes after it.  The field fails exactly when the value does not start with
  such an integer; in particular a value whose first code unit is neither white space,
  a sign nor a digit is rejected.  If any provided field fails, the request is answered
  with 400 and an error message, no records are returned and the store is untouched.
\<close>

theorem integer_parameters_read_by_prefix:
  "(int_prefix ws sg ds rest \<longrightarrow>
      parseIntOrNull (Some (ws @ sg @ ds @ rest))
        = IntVal (to_number (if sg = [0x2D] then - digits_value ds else digits_value ds)))
   \<and> (parseIntOrNull (Some v) = Null)
       = (\<not> (\<exists>ws sg ds rest. v = ws @ sg @ ds @ rest \<and> int_prefix ws sg ds rest))
   \<and> (v \<noteq> [] \<and> \<not> is_space (hd v) \<and> hd v \<noteq> 0x2B \<and> hd v \<noteq> 0x2D \<and> \<not> is_digit (hd v) \<longrightarrow>
        parseIntOrNull (Some v) = Null)
   \<and> ((q_min_length q \<noteq> None \<and> parseIntOrNull (q_min_length q) = Null)
        \<or> (q_max_length q \<noteq> None \<and> parseIntOrNull (q_max_length q) = Null)
        \<or> (q_word_count q \<noteq> None \<and> parseIntOrNull (q_word_count q) = Null) \<longrightarrow>
       fst (fst (get_strings rt q strings)) = 400
       \<and> (\<exists>msg. snd (fst (get_strings rt q strings)) = ErrorBody msg)
       \<and> snd (get_strings rt q strings) = strings)"
proof -
  have 1: "parseIntOrNull (Some (ws @ sg @ ds @ rest))
        = IntVal (to_number (if sg = [0x2D] then - digits_value ds else digits_value ds))"
    if "int_prefix ws sg ds rest"
    using parseInt10_prefix [OF that] by (simp add: parseIntOrNull_def)
  have 2: "(parseIntOrNull (Some v) = Null)
       = (\<not> (\<exists>ws sg ds rest. v = ws @ sg @ ds @ rest \<and> int_prefix ws sg ds rest))"
  proof (cases "parseInt10 v")
    case None
    have "\<not> (\<exists>ws sg ds rest. v = ws @ sg @ ds @ rest \<and> int_prefix ws sg ds rest)"
    proof
      assume "\<exists>ws sg ds rest. v = ws @ sg @ ds @ rest \<and> int_prefix ws sg ds rest"
      then obtain ws sg ds rest where "v = ws @ sg @ ds @ rest" "int_prefix ws sg ds rest"
        by blast
      with parseInt10_prefix [of ws sg ds rest] None show False by simp
    qed
    with None show ?thesis by (simp add: parseIntOrNull_def)
  next
    case (Some n)
    from parseInt10_Some_prefix [OF Some] Some show ?thesis
      by (simp add: parseIntOrNull_def)
  qed
  have 3: "parseIntOrNull (Some v) = Null"
    if "v \<noteq> [] \<and> \<not> is_space (hd v) \<and> hd v \<noteq> 0x2B \<and> hd v \<noteq> 0x2D \<and> \<not> is_digit (hd v)"
    using that by (cases v) (auto simp: parseIntOrNull_def parseInt10_def Let_def)
  have 4: "fst (fst (get_strings rt q strings)) = 400
       \<and> (\<exists>msg. snd (fst (get_strings rt q strings)) = ErrorBody msg)
       \<and> snd (get_strings rt q strings) = strings"
    if "(q_min_length q \<noteq> None \<and> parseIntOrNull (q_min_length q) = Null)
        \<or> (q_max_length q \<noteq> None \<and> parseIntOrNull (q_max_length q) = Null)
        \<or> (q_word_count q \<noteq> None \<and> parseIntOrNull (q_word_count q) = Null)"
    using that by (auto simp: get_strings_def Let_def)
  from 1 2 3 4 show ?thesis by blast
qed

text \<open>
  The claim as stated fails: \<open>min_length=12abc\<close> is accepted and filters with the
  truncated value 12, and \<open>max_length=\<close> followed by a blank and 7 is accepted as 7.
\<close>

theorem integer_parameters_counterexample:
  "fst (get_strings ascii_runtime (empty_query\<lparr>q_min_length := Some (js ''12abc'')\<rparr>)
       [example_item ''level''])
     = (200, CollectionBody [] 0 (no_filters\<lparr>fs_min_length := IntVal (Num 12)\<rparr>))
   \<and> fst (get_strings ascii_runtime (empty_query\<lparr>q_max_length := Some (js '' 7'')\<rparr>)
       [example_item ''level''])
     = (200, CollectionBody [example_item ''level''] 1
          (no_filters\<lparr>fs_max_length := IntVal (Num 7)\<rparr>))"
proof -
  have a: "parseIntOrNull (Some (js ''12abc'')) = IntVal (Num 12)"
    by (simp add: parseIntOrNull_def parseInt10_def js_def is_space_def is_digit_def
      digits_value_def digit_value_def to_number_small)
  have b: "parseIntOrNull (Some (js '' 7'')) = IntVal (Num 7)"
    by (simp add: parseIntOrNull_def parseInt10_def js_def is_space_def is_digit_def
      digits_value_def digit_value_def to_number_small)
  have c: "no_filters\<lparr>fs_min_length := IntVal (Num 12)\<rparr>
      = \<lparr>fs_is_palindrome = None, fs_min_length = IntVal (Num 12), fs_max_length = Undefined,
         fs_word_count = Undefined, fs_contains_character = None\<rparr>"
    "no_filters\<lparr>fs_max_length := IntVal (Num 7)\<rparr>
      = \<lparr>fs_is_palindrome = None, fs_min_length = Undefined, fs_max_length = IntVal (Num 7),
         fs_word_count = Undefined, fs_contains_character = None\<rparr>"
    by (simp_all add: no_filters_def)
  show ?thesis
    unfolding c
    by (simp add: get_strings_def Let_def empty_query_def a b
        parseIntOrNull_Undefined [THEN iffD2] filter_steps satisfies_def
        example_item_length)
qed

theorem integer_parameters_read_by_prefix_witness:
  "int_prefix (js '' '') (js ''-'') (js ''12'') (js ''.5abc'')
   \<and> parseIntOrNull (Some (js '' -12.5abc'')) = IntVal (Num (- 12))
   \<and> parseIntOrNull (Some (js ''abc12'')) = Null
   \<and> fst (fst (get_strings ascii_runtime (empty_query\<lparr>q_word_count := Some (js ''abc12'')\<rparr>)
        [example_item ''level''])) = 400
   \<and> snd (get_strings ascii_runtime (empty_query\<lparr>q_word_count := Some (js ''abc12'')\<rparr>)
        [example_item ''level'']) = [example_item ''level'']"
proof -
  let ?q = "empty_query\<lparr>q_word_count := Some (js ''abc12'')\<rparr>"
  have ip: "int_prefix (js '' '') (js ''-'') (js ''12'') (js ''.5abc'')"
    by (simp add: int_prefix_def js_def is_space_def is_digit_def)
  have v: "js '' '' @ js ''-'' @ js ''12'' @ js ''.5abc'' = js '' -12.5abc''"
    by (simp add: js_def)
  have dv: "to_number (if js ''-'' = [0x2D] then - digits_value (js ''12'') else digits_value (js ''12''))
      = Num (- 12)"
    by (simp add: js_def digits_value_def digit_value_def to_number_small)
  have hd: "js ''abc12'' \<noteq> [] \<and> \<not> is_space (hd (js ''abc12'')) \<and> hd (js ''abc12'') \<noteq> 0x2B
      \<and> hd (js ''abc12'') \<noteq> 0x2D \<and> \<not> is_digit (hd (js ''abc12''))"
    by (simp add: js_def is_space_def is_digit_def)
  have qq: "q_word_count ?q = Some (js ''abc12'')" by simp
  from integer_parameters_read_by_prefix
    [of "js '' ''" "js ''-''" "js ''12''" "js ''.5abc''" "js ''abc12''" ?q ascii_runtime
      "[example_item ''level'']"]
    ip hd
  show ?thesis unfolding v dv qq by auto
qed

section \<open>Filtering by a phrase: recognizers, bounds and conflicts\<close>

lemma set_word_count_one_fields:
  "fs_is_palindrome (set_word_count_one s p) = fs_is_palindrome p"
  "fs_min_length (set_word_count_one s p) = fs_min_length p"
  "fs_max_length (set_word_count_one s p) = fs_max_length p"
  "fs_contains_character (set_word_count_one s p) = fs_contains_character p"
  "fs_word_count (set_word_count_one s p)
     = (if test re_single_word s \<or> test re_word_count_is_1 s then IntVal (Num 1)
        else fs_word_count p)"
  by (simp_all add: set_word_count_one_def)

lemma set_word_count_n_fields:
  "fs_is_palindrome (set_word_count_n s p) = fs_is_palindrome p"
  "fs_min_length (set_word_count_n s p) = fs_min_length p"
  "fs_max_length (set_word_count_n s p) = fs_max_length p"
  "fs_contains_character (set_word_count_n s p) = fs_contains_character p"
  "fs_word_count (set_word_count_n s p)
     = (case exec re_n_words s of None \<Rightarrow> fs_word_count p
        | Some m \<Rightarrow> IntVal (Number_of_digits (capture m 1)))"
  by (simp_all add: set_word_count_n_def split: option.splits)

lemma set_is_palindrome_fields:
  "fs_is_palindrome (set_is_palindrome s p)
     = (if test re_palindrome s then Some True else fs_is_palindrome p)"
  "fs_min_length (set_is_palindrome s p) = fs_min_length p"
  "fs_max_length (set_is_palindrome s p) = fs_max_length p"
  "fs_contains_character (set_is_palindrome s p) = fs_contains_character p"
  "fs_word_count (set_is_palindrome s p) = fs_word_count p"
  by (simp_all add: set_is_palindrome_def)

lemma set_min_length_fields:
  "fs_is_palindrome (set_min_length s p) = fs_is_palindrome p"
  "fs_min_length (set_min_length s p)
     = (case exec re_longer s of None \<Rightarrow> fs_min_length p
        | Some m \<Rightarrow> IntVal (num_add (Number_of_digits (capture m 1)) 1))"
  "fs_max_length (set_min_length s p) = fs_max_length p"
  "fs_contains_character (set_min_length s p) = fs_contains_character p"
  "fs_word_count (set_min_length s p) = fs_word_count p"
  by (simp_all add: set_min_length_def split: option.splits)

lemma set_max_length_fields:
  "fs_is_palindrome (set_max_length s p) = fs_is_palindrome p"
  "fs_min_length (set_max_length s p) = fs_min_length p"
  "fs_max_length (set_max_length s p)
     = (case exec re_shorter s of None \<Rightarrow> fs_max_length p
        | Some m \<Rightarrow> IntVal (num_add (Number_of_digits (capture m 2)) (- 1)))"
  "fs_contains_character (set_max_length s p) = fs_contains_character p"
  "fs_word_count (set_max_length s p) = fs_word_count p"
  by (simp_all add: set_max_length_def split: option.splits)

lemma set_contains_character_fields:
  "fs_is_palindrome (set_contains_character rt s p) = fs_is_palindrome p"
  "fs_min_length (set_contains_character rt s p) = fs_min_length p"
  "fs_max_length (set_contains_character rt s p) = fs_max_length p"
  "fs_contains_character (set_contains_character rt s p)
     = (case exec re_letter s of None \<Rightarrow> fs_contains_character p
        | Some m \<Rightarrow> Some (toLowerCase rt (capture m 1)))"
  "fs_word_count (set_contains_character rt s p) = fs_word_count p"
  by (simp_all add: set_contains_character_def split: option.splits)

lemmas setter_fields = set_word_count_one_fields set_word_count_n_fields
  set_is_palindrome_fields set_min_length_fields set_max_length_fields
  set_contains_character_fields

lemma parsed_values:
  "fs_is_palindrome (parsed_of rt s) = (if test re_palindrome s then Some True else None)"
  "fs_word_count (parsed_of rt s)
     = (case exec re_n_words s of
          None \<Rightarrow> if test re_single_word s \<or> test re_word_count_is_1 s then IntVal (Num 1)
                   else Undefined
        | Some m \<Rightarrow> IntVal (Number_of_digits (capture m 1)))"
  "fs_min_length (parsed_of rt s)
     = (case exec re_longer s of None \<Rightarrow> Undefined
        | Some m \<Rightarrow> IntVal (num_add (Number_of_digits (capture m 1)) 1))"
  "fs_max_length (parsed_of rt s)
     = (case exec re_shorter s of None \<Rightarrow> Undefined
        | Some m \<Rightarrow> IntVal (num_add (Number_of_digits (capture m 2)) (- 1)))"
  "fs_contains_character (parsed_of rt s)
     = (case exec re_letter s of None \<Rightarrow> None
        | Some m \<Rightarrow> Some (toLowerCase rt (capture m 1)))"
  by (simp_all add: parsed_of_def setter_fields no_filters_def split: option.splits)

lemma parse_parsed_of:
  "parseNaturalLanguageQuery rt q =
     (if no_keys (parsed_of rt (toLowerCase rt q)) then None
      else Some (parsed_of rt (toLowerCase rt q)))"
  by (simp add: parseNaturalLanguageQuery_def parsed_of_def Let_def)

lemma star_greedy_total:
  "(\<And>st. k st \<noteq> None) \<Longrightarrow>
   star_greedy p k bef aft caps = k (MState (rev (takeWhile p aft) @ bef) (dropWhile p aft) caps)"
proof (induction aft arbitrary: bef)
  case Nil
  show ?case by simp
next
  case (Cons c cs)
  show ?case
  proof (cases "p c")
    case False
    then show ?thesis by simp
  next
    case True
    from Cons.prems have "k (MState (rev (takeWhile p cs) @ c # bef) (dropWhile p cs) caps) \<noteq> None"
      by blast
    then obtain r where "k (MState (rev (takeWhile p cs) @ c # bef) (dropWhile p cs) caps) = Some r"
      by blast
    with True Cons.IH [OF Cons.prems, of "c # bef"] show ?thesis by simp
  qed
qed

lemma strip_prefix_prefix:
  "strip_prefix l s = (if prefix l s then Some (drop (length l) s) else None)"
proof -
  have "(take (length l) s = l) = prefix l s"
    by (metis append_eq_conv_conj prefix_def take_is_prefix)
  then show ?thesis by (simp add: strip_prefix_def)
qed

lemma rev_take_rev: "rev (take (Suc (length xs)) (rev xs @ c # b)) = c # xs"
  by simp

lemma group_plus:
  "rmatch (Group n (Plus p)) Some (MState b a caps) =
     (case a of [] \<Rightarrow> None
      | c # cs \<Rightarrow> if p c
          then Some (MState (rev (takeWhile p a) @ b) (dropWhile p a) (caps(n \<mapsto> takeWhile p a)))
          else None)"
proof (cases a)
  case Nil
  then show ?thesis by simp
next
  case (Cons c cs)
  show ?thesis
  proof (cases "p c")
    case False
    with Cons show ?thesis by simp
  next
    case True
    let ?k = "\<lambda>st'. Some (MState (before st') (after st')
        ((captures st')(n \<mapsto> rev (take (length (before st') - length b) (before st')))))"
    have "star_greedy p ?k (c # b) cs caps
        = ?k (MState (rev (takeWhile p cs) @ c # b) (dropWhile p cs) caps)"
      by (rule star_greedy_total) simp
    with True Cons show ?thesis by simp
  qed
qed

lemma match_here_longer:
  "map_option (\<lambda>m. capture m 1) (match_here re_longer bef aft)
     = numbered_here [js ''longer than ''] bef aft"
  by (auto simp del: rmatch.simps(7) rmatch.simps(9)
      simp: match_here_def re_longer_def strip_prefix_prefix group_plus
      numbered_here_def numeral_after_def capture_def split: list.splits)


lemma search_longer:
  "map_option (\<lambda>m. capture m 1) (search re_longer bef aft)
     = first_numbered [js ''longer than ''] bef aft"
proof (induction aft arbitrary: bef)
  case Nil
  show ?case using match_here_longer [of bef "[]"] by simp
next
  case (Cons c cs)
  show ?case
  proof (cases "match_here re_longer bef (c # cs)")
    case None
    with match_here_longer [of bef "c # cs"]
    have "numbered_here [js ''longer than ''] bef (c # cs) = None" by simp
    with None Cons.IH [of "c # bef"] show ?thesis by simp
  next
    case (Some m)
    with match_here_longer [of bef "c # cs"]
    have "numbered_here [js ''longer than ''] bef (c # cs) = Some (capture m 1)" by simp
    with Some show ?thesis by simp
  qed
qed

lemma prefix_shorter_less:
  "prefix (js ''shorter than'') aft \<Longrightarrow> \<not> prefix (js ''less than'') aft"
  by (cases aft) (auto simp: js_def)

lemma group_alt_lit:
  "rmatch (Group n (Alt (Lit A) (Lit B))) k (MState b a caps) =
     (case (if prefix A a then k (MState (rev A @ b) (drop (length A) a) (caps(n \<mapsto> A)))
            else None) of
        Some r \<Rightarrow> Some r
      | None \<Rightarrow> (if prefix B a then k (MState (rev B @ b) (drop (length B) a) (caps(n \<mapsto> B)))
                   else None))"
  by (simp add: strip_prefix_prefix split: option.splits)

lemma lit_group_plus:
  "rmatch (Cat (Lit l) (Group n (Plus p))) Some (MState b a caps) =
     (if prefix l a \<and> takeWhile p (drop (length l) a) \<noteq> []
      then Some (MState (rev (takeWhile p (drop (length l) a)) @ rev l @ b)
                  (dropWhile p (drop (length l) a))
                  (caps(n \<mapsto> takeWhile p (drop (length l) a)))) else None)"
  by (auto simp del: rmatch.simps(7) rmatch.simps(9)
      simp: strip_prefix_prefix group_plus split: list.splits)

lemma prefix_append_drop:
  "prefix (A @ l) a = (prefix A a \<and> prefix l (drop (length A) a))"
  by (metis append_eq_conv_conj prefix_def append.assoc append_take_drop_id)

lemma keyword_decompose:
  "js ''shorter than '' = js ''shorter than'' @ js '' ''"
  "js ''less than '' = js ''less than'' @ js '' ''"
  by (simp_all add: js_def)

lemma match_here_shorter:
  "map_option (\<lambda>m. capture m 2) (match_here re_shorter bef aft)
     = numbered_here [js ''shorter than '', js ''less than ''] bef aft"
proof (cases "at_word_boundary (MState bef aft Map.empty)")
  case False
  then show ?thesis by (simp add: match_here_def re_shorter_def numbered_here_def)
next
  case True
  let ?A = "js ''shorter than''" and ?B = "js ''less than''" and ?l = "js '' ''"
  have m: "match_here re_shorter bef aft
      = rmatch (Group 1 (Alt (Lit ?A) (Lit ?B))) (rmatch (Cat (Lit ?l) (Group 2 (Plus is_digit))) Some)
          (MState bef aft Map.empty)"
    using True by (simp add: match_here_def re_shorter_def del: rmatch.simps(9))
  have n: "numbered_here [?A @ ?l, ?B @ ?l] bef aft
      = (case numeral_after (?A @ ?l) aft of Some ds \<Rightarrow> Some ds
         | None \<Rightarrow> numeral_after (?B @ ?l) aft)"
    using True by (simp add: numbered_here_def split: option.splits)
  show ?thesis
  proof (cases "prefix ?A aft")
    case A: True
    then have nB: "\<not> prefix ?B aft" by (rule prefix_shorter_less)
    show ?thesis
      unfolding keyword_decompose m n group_alt_lit lit_group_plus
      using A nB
      by (simp add: numeral_after_def prefix_append_drop capture_def drop_drop add.commute)
  next
    case nA: False
    show ?thesis
      unfolding keyword_decompose m n group_alt_lit lit_group_plus
      using nA
      by (simp add: numeral_after_def prefix_append_drop capture_def drop_drop add.commute)
  qed
qed

lemma search_shorter:
  "map_option (\<lambda>m. capture m 2) (search re_shorter bef aft)
     = first_numbered [js ''shorter than '', js ''less than ''] bef aft"
proof (induction aft arbitrary: bef)
  case Nil
  show ?case using match_here_shorter [of bef "[]"] by simp
next
  case (Cons c cs)
  show ?case
  proof (cases "match_here re_shorter bef (c # cs)")
    case None
    with match_here_shorter [of bef "c # cs"]
    have "numbered_here [js ''shorter than '', js ''less than ''] bef (c # cs) = None" by simp
    with None Cons.IH [of "c # bef"] show ?thesis by simp
  next
    case (Some m)
    with match_here_shorter [of bef "c # cs"]
    have "numbered_here [js ''shorter than '', js ''less than ''] bef (c # cs)
        = Some (capture m 2)" by simp
    with Some show ?thesis by simp
  qed
qed

lemma digits_value_nonneg: "0 \<le> digits_value ds"
proof -
  have "0 \<le> n \<Longrightarrow> 0 \<le> foldl (\<lambda>n c. 10 * n + digit_value c) n ds" for n
    by (induction ds arbitrary: n) (auto simp: digit_value_def)
  then show ?thesis by (simp add: digits_value_def)
qed

lemma bitlen_2_53: "bitlen 9007199254740992 = 54"
  by code_simp

lemma round_double_2_53: "round_double 9007199254740992 = 9007199254740992"
  by (simp add: round_double_def bitlen_2_53 Let_def)

lemma to_number_exact: "\<bar>i\<bar> \<le> 2 ^ 53 \<Longrightarrow> to_number i = Num i"
proof (cases "\<bar>i\<bar> < 2 ^ 53")
  case True
  then show ?thesis by (rule to_number_small)
next
  case False
  assume "\<bar>i\<bar> \<le> 2 ^ 53"
  with False have "\<bar>i\<bar> = 2 ^ 53" by simp
  then show ?thesis
    by (auto simp: to_number_def round_double_2_53 Let_def)
qed

lemma plus_one_exact:
  "digits_value ds < 2 ^ 53 \<Longrightarrow> num_add (Number_of_digits ds) 1 = Num (digits_value ds + 1)"
  using digits_value_nonneg [of ds]
  by (simp add: Number_of_digits_def to_number_exact)

lemma minus_one_exact:
  "digits_value ds \<le> 2 ^ 53 \<Longrightarrow> num_add (Number_of_digits ds) (- 1) = Num (digits_value ds - 1)"
  using digits_value_nonneg [of ds]
  by (simp add: Number_of_digits_def to_number_exact)

lemma exec_capture_longer:
  "map_option (\<lambda>m. capture m 1) (exec re_longer s) = first_numbered [js ''longer than ''] [] s"
  by (simp only: exec_def search_longer)

lemma exec_capture_shorter:
  "map_option (\<lambda>m. capture m 2) (exec re_shorter s)
     = first_numbered [js ''shorter than '', js ''less than ''] [] s"
  by (simp only: exec_def search_shorter)

lemma parsed_min_length:
  "fs_min_length (parsed_of rt s)
     = (case first_numbered [js ''longer than ''] [] s of None \<Rightarrow> Undefined
        | Some ds \<Rightarrow> IntVal (num_add (Number_of_digits ds) 1))"
  by (simp add: parsed_values exec_capture_longer [symmetric] split: option.splits)

lemma parsed_max_length:
  "fs_max_length (parsed_of rt s)
     = (case first_numbered [js ''shorter than '', js ''less than ''] [] s of None \<Rightarrow> Undefined
        | Some ds \<Rightarrow> IntVal (num_add (Number_of_digits ds) (- 1)))"
  by (simp add: parsed_values exec_capture_shorter [symmetric] split: option.splits)

lemma first_some_None: "(first_some f xs = None) = (\<forall>x \<in> set xs. f x = None)"
  by (induction xs) (auto split: option.splits)

lemma numeral_after_Some:
  "(numeral_after kw aft \<noteq> None) = (\<exists>d rest. aft = kw @ d # rest \<and> is_digit d)"
proof
  assume "numeral_after kw aft \<noteq> None"
  then have p: "prefix kw aft" and t: "takeWhile is_digit (drop (length kw) aft) \<noteq> []"
    by (auto simp: numeral_after_def split: if_splits)
  from p obtain r where r: "aft = kw @ r" by (auto simp: prefix_def)
  with t have "takeWhile is_digit r \<noteq> []" by simp
  then obtain d rest where "r = d # rest" "is_digit d"
    by (cases r) (auto split: if_splits)
  with r show "\<exists>d rest. aft = kw @ d # rest \<and> is_digit d" by blast
next
  assume "\<exists>d rest. aft = kw @ d # rest \<and> is_digit d"
  then show "numeral_after kw aft \<noteq> None" by (auto simp: numeral_after_def)
qed

lemma boundary_before_word:
  "is_word c \<Longrightarrow>
   at_word_boundary (MState (rev pre @ bef) (c # r) caps)
     = (if pre = [] then (bef = [] \<or> \<not> is_word (hd bef)) else \<not> is_word (last pre))"
  by (cases pre rule: rev_cases; cases bef) (auto simp: at_word_boundary_def)

lemma first_numbered_None:
  assumes kws: "\<forall>kw \<in> set kws. kw \<noteq> [] \<and> is_word (hd kw)"
  shows "(first_numbered kws bef aft \<noteq> None)
     = (\<exists>kw \<in> set kws. \<exists>pre d rest. aft = pre @ kw @ d # rest \<and> is_digit d
          \<and> at_word_boundary (MState (rev pre @ bef) (kw @ d # rest) Map.empty))"
proof (induction aft arbitrary: bef)
  case Nil
  have "numbered_here kws bef [] = None"
    using kws by (auto simp: numbered_here_def first_some_None numeral_after_def)
  then show ?case using kws by auto
next
  case (Cons c cs)
  have here: "(numbered_here kws bef (c # cs) \<noteq> None)
      = (\<exists>kw \<in> set kws. \<exists>d rest. c # cs = kw @ d # rest \<and> is_digit d
          \<and> at_word_boundary (MState bef (kw @ d # rest) Map.empty))"
  proof -
    have "(numbered_here kws bef (c # cs) \<noteq> None)
        = (at_word_boundary (MState bef (c # cs) Map.empty)
           \<and> (\<exists>kw \<in> set kws. numeral_after kw (c # cs) \<noteq> None))"
      using first_some_None [of "\<lambda>kw. numeral_after kw (c # cs)" kws]
      by (auto simp: numbered_here_def)
    also have "\<dots> = (at_word_boundary (MState bef (c # cs) Map.empty)
           \<and> (\<exists>kw \<in> set kws. \<exists>d rest. c # cs = kw @ d # rest \<and> is_digit d))"
      by (simp only: numeral_after_Some)
    also have "\<dots> = (\<exists>kw \<in> set kws. \<exists>d rest. c # cs = kw @ d # rest \<and> is_digit d
          \<and> at_word_boundary (MState bef (kw @ d # rest) Map.empty))"
      by metis
    finally show ?thesis .
  qed
  have "(first_numbered kws bef (c # cs) \<noteq> None)
      = (numbered_here kws bef (c # cs) \<noteq> None \<or> first_numbered kws (c # bef) cs \<noteq> None)"
    by (simp split: option.splits)
  also have "\<dots> = ((\<exists>kw \<in> set kws. \<exists>d rest. c # cs = kw @ d # rest \<and> is_digit d
          \<and> at_word_boundary (MState bef (kw @ d # rest) Map.empty))
       \<or> (\<exists>kw \<in> set kws. \<exists>pre d rest. cs = pre @ kw @ d # rest \<and> is_digit d
          \<and> at_word_boundary (MState (rev pre @ c # bef) (kw @ d # rest) Map.empty)))"
    by (simp only: here Cons.IH)
  also have "\<dots> = (\<exists>kw \<in> set kws. \<exists>pre d rest. c # cs = pre @ kw @ d # rest \<and> is_digit d
          \<and> at_word_boundary (MState (rev pre @ bef) (kw @ d # rest) Map.empty))"
    (is "(?L1 \<or> ?L2) = ?R")
  proof
    assume "?L1 \<or> ?L2"
    then show ?R
    proof
      assume ?L1
      then obtain kw d rest where "kw \<in> set kws" "c # cs = [] @ kw @ d # rest" "is_digit d"
        "at_word_boundary (MState (rev [] @ bef) (kw @ d # rest) Map.empty)"
        by auto
      then show ?R by blast
    next
      assume ?L2
      then obtain kw pre d rest where "kw \<in> set kws" "cs = pre @ kw @ d # rest" "is_digit d"
        "at_word_boundary (MState (rev pre @ c # bef) (kw @ d # rest) Map.empty)"
        by auto
      then have "kw \<in> set kws" "c # cs = (c # pre) @ kw @ d # rest" "is_digit d"
        "at_word_boundary (MState (rev (c # pre) @ bef) (kw @ d # rest) Map.empty)"
        by auto
      then show ?R by blast
    qed
  next
    assume ?R
    then obtain kw pre d rest where k: "kw \<in> set kws" and e: "c # cs = pre @ kw @ d # rest"
      and d: "is_digit d"
      and b: "at_word_boundary (MState (rev pre @ bef) (kw @ d # rest) Map.empty)"
      by auto
    show "?L1 \<or> ?L2"
    proof (cases pre)
      case Nil
      with k e d b have ?L1 by auto
      then show ?thesis ..
    next
      case (Cons p pre')
      with e have "cs = pre' @ kw @ d # rest" by simp
      moreover from b Cons
      have "at_word_boundary (MState (rev pre' @ c # bef) (kw @ d # rest) Map.empty)"
        using e by simp
      ultimately have ?L2 using k d by blast
      then show ?thesis ..
    qed
  qed
  finally show ?case .
qed

lemma first_numbered_occurs:
  assumes kws: "\<forall>kw \<in> set kws. kw \<noteq> [] \<and> is_word (hd kw)"
  shows "(first_numbered kws [] s \<noteq> None) = (\<exists>kw \<in> set kws. occurs_numbered kw s)"
proof -
  have b: "at_word_boundary (MState (rev pre @ []) (kw @ d # rest) Map.empty)
      = (pre = [] \<or> \<not> is_word (last pre))" if "kw \<in> set kws" for kw pre d rest
  proof -
    from that kws have "kw \<noteq> []" "is_word (hd kw)" by auto
    then obtain c r where "kw = c # r" "is_word c" by (cases kw) auto
    then show ?thesis
      using boundary_before_word [of c pre "[]" "r @ d # rest" Map.empty] by auto
  qed
  show ?thesis
    unfolding first_numbered_None [OF kws] occurs_numbered_def
    using b by (metis (no_types, lifting))
qed

text \<open>
  Claim C3, as the code has it.  The translator reads the lower-cased phrase for the first
  position, at a word boundary, where "longer than " is directly followed by a digit; if
  there is one, \<open>min_length\<close> is the whole run of digits there, as a number, plus 1,
  which is N + 1 whenever N is below 2 to the 53; if there is none, \<open>min_length\<close> is
  not set.  Likewise \<open>max_length\<close> is the numeral after the first "shorter than " or
  "less than " at a word boundary, minus 1, which is N - 1 whenever N is at most 2 to
  the 53.  So \<open>min_length\<close> is set exactly when "longer than " occurs numbered in the
  lower-cased phrase, and \<open>max_length\<close> exactly when "shorter than " or "less than "
  does.
\<close>

theorem longer_shorter_bounds:
  "(first_numbered [js ''longer than ''] [] (toLowerCase rt q) = Some ds \<longrightarrow>
      (\<exists>f. parseNaturalLanguageQuery rt q = Some f
          \<and> fs_min_length f = IntVal (num_add (Number_of_digits ds) 1))
      \<and> (digits_value ds < 2 ^ 53 \<longrightarrow>
           num_add (Number_of_digits ds) 1 = Num (digits_value ds + 1)))
   \<and> (first_numbered [js ''longer than ''] [] (toLowerCase rt q) = None \<longrightarrow>
      (\<forall>f. parseNaturalLanguageQuery rt q = Some f \<longrightarrow> fs_min_length f = Undefined))
   \<and> (first_numbered [js ''shorter than '', js ''less than ''] [] (toLowerCase rt q) = Some ds' \<longrightarrow>
      (\<exists>f. parseNaturalLanguageQuery rt q = Some f
          \<and> fs_max_length f = IntVal (num_add (Number_of_digits ds') (- 1)))
      \<and> (digits_value ds' \<le> 2 ^ 53 \<longrightarrow>
           num_add (Number_of_digits ds') (- 1) = Num (digits_value ds' - 1)))
   \<and> (first_numbered [js ''shorter than '', js ''less than ''] [] (toLowerCase rt q) = None \<longrightarrow>
      (\<forall>f. parseNaturalLanguageQuery rt q = Some f \<longrightarrow> fs_max_length f = Undefined))
   \<and> (\<exists>f. parseNaturalLanguageQuery rt q = Some f \<and> fs_min_length f \<noteq> Undefined)
       = occurs_numbered (js ''longer than '') (toLowerCase rt q)
   \<and> (\<exists>f. parseNaturalLanguageQuery rt q = Some f \<and> fs_max_length f \<noteq> Undefined)
       = (occurs_numbered (js ''shorter than '') (toLowerCase rt q)
          \<or> occurs_numbered (js ''less than '') (toLowerCase rt q))"
proof -
  let ?s = "toLowerCase rt q"
  let ?p = "parsed_of rt ?s"
  have parse_field: "(\<exists>f. parseNaturalLanguageQuery rt q = Some f \<and> P f) = P ?p"
    if "P ?p \<Longrightarrow> \<not> no_keys ?p" for P
    using that by (auto simp: parse_parsed_of)
  have k1: "\<forall>kw \<in> set [js ''longer than '']. kw \<noteq> [] \<and> is_word (hd kw)"
    by (simp add: js_def is_word_def is_ascii_letter_def)
  have k2: "\<forall>kw \<in> set [js ''shorter than '', js ''less than '']. kw \<noteq> [] \<and> is_word (hd kw)"
    by (simp add: js_def is_word_def is_ascii_letter_def)
  have "(\<exists>f. parseNaturalLanguageQuery rt q = Some f \<and> fs_min_length f \<noteq> Undefined)
      = (fs_min_length ?p \<noteq> Undefined)"
    by (rule parse_field) (simp add: no_keys_def)
  also have "\<dots> = (first_numbered [js ''longer than ''] [] ?s \<noteq> None)"
    by (simp add: parsed_min_length split: option.splits)
  also have "\<dots> = occurs_numbered (js ''longer than '') ?s"
    using first_numbered_occurs [OF k1, of ?s] by simp
  finally have 5: "(\<exists>f. parseNaturalLanguageQuery rt q = Some f \<and> fs_min_length f \<noteq> Undefined)
      = occurs_numbered (js ''longer than '') ?s" .
  have "(\<exists>f. parseNaturalLanguageQuery rt q = Some f \<and> fs_max_length f \<noteq> Undefined)
      = (fs_max_length ?p \<noteq> Undefined)"
    by (rule parse_field) (simp add: no_keys_def)
  also have "\<dots> = (first_numbered [js ''shorter than '', js ''less than ''] [] ?s \<noteq> None)"
    by (simp add: parsed_max_length split: option.splits)
  also have "\<dots> = (occurs_numbered (js ''shorter than '') ?s
          \<or> occurs_numbered (js ''less than '') ?s)"
    using first_numbered_occurs [OF k2, of ?s] by simp
  finally have 6: "(\<exists>f. parseNaturalLanguageQuery rt q = Some f \<and> fs_max_length f \<noteq> Undefined)
      = (occurs_numbered (js ''shorter than '') ?s
          \<or> occurs_numbered (js ''less than '') ?s)" .
  have some: "parseNaturalLanguageQuery rt q = Some f \<Longrightarrow> f = ?p" for f
    by (simp add: parse_parsed_of split: if_splits)
  have 1: "(\<exists>f. parseNaturalLanguageQuery rt q = Some f
          \<and> fs_min_length f = IntVal (num_add (Number_of_digits ds) 1))
      \<and> (digits_value ds < 2 ^ 53 \<longrightarrow>
           num_add (Number_of_digits ds) 1 = Num (digits_value ds + 1))"
    if a: "first_numbered [js ''longer than ''] [] ?s = Some ds"
  proof -
    from a have v: "fs_min_length ?p = IntVal (num_add (Number_of_digits ds) 1)"
      by (simp add: parsed_min_length)
    then have "\<not> no_keys ?p" by (simp add: no_keys_def)
    then have "parseNaturalLanguageQuery rt q = Some ?p" by (simp add: parse_parsed_of)
    with v plus_one_exact [of ds] show ?thesis by blast
  qed
  have 2: "\<forall>f. parseNaturalLanguageQuery rt q = Some f \<longrightarrow> fs_min_length f = Undefined"
    if a: "first_numbered [js ''longer than ''] [] ?s = None"
    using a some by (auto simp: parsed_min_length)
  have 3: "(\<exists>f. parseNaturalLanguageQuery rt q = Some f
          \<and> fs_max_length f = IntVal (num_add (Number_of_digits ds') (- 1)))
      \<and> (digits_value ds' \<le> 2 ^ 53 \<longrightarrow>
           num_add (Number_of_digits ds') (- 1) = Num (digits_value ds' - 1))"
    if a: "first_numbered [js ''shorter than '', js ''less than ''] [] ?s = Some ds'"
  proof -
    from a have v: "fs_max_length ?p = IntVal (num_add (Number_of_digits ds') (- 1))"
      by (simp add: parsed_max_length)
    then have "\<not> no_keys ?p" by (simp add: no_keys_def)
    then have "parseNaturalLanguageQuery rt q = Some ?p" by (simp add: parse_parsed_of)
    with v minus_one_exact [of ds'] show ?thesis by blast
  qed
  have 4: "\<forall>f. parseNaturalLanguageQuery rt q = Some f \<longrightarrow> fs_max_length f = Undefined"
    if a: "first_numbered [js ''shorter than '', js ''less than ''] [] ?s = None"
    using a some by (auto simp: parsed_max_length)
  from 1 2 3 4 5 6 show ?thesis by blast
qed

text \<open>
  The claim as stated fails: a phrase that contains "longer than 10" right after a letter
  sets no \<open>min_length\<close> (the pattern starts with a word boundary), and beyond 2 to the
  53 the sum and the difference are rounded: "longer than 9007199254740992" gives that
  same number, and "less than 9007199254740994" gives N - 2.
\<close>

theorem longer_shorter_counterexample:
  "parseNaturalLanguageQuery ascii_runtime (js ''xlonger than 10'') = None
   \<and> parseNaturalLanguageQuery ascii_runtime (js ''longer than 9007199254740992'')
       = Some (no_filters\<lparr>fs_min_length := IntVal (Num 9007199254740992)\<rparr>)
   \<and> parseNaturalLanguageQuery ascii_runtime (js ''less than 9007199254740994'')
       = Some (no_filters\<lparr>fs_max_length := IntVal (Num 9007199254740992)\<rparr>)"
  by code_simp


theorem longer_shorter_bounds_witness:
  "(\<exists>f. parseNaturalLanguageQuery ascii_runtime (js ''strings longer than 10'') = Some f
        \<and> fs_min_length f = IntVal (Num 11) \<and> fs_max_length f = Undefined)
   \<and> (\<exists>f. parseNaturalLanguageQuery ascii_runtime (js ''Words LESS than 3'') = Some f
        \<and> fs_max_length f = IntVal (Num 2) \<and> fs_min_length f = Undefined)"
proof -
  let ?q1 = "js ''strings longer than 10''" and ?q2 = "js ''Words LESS than 3''"
  have a1: "first_numbered [js ''longer than ''] [] (toLowerCase ascii_runtime ?q1) = Some (js ''10'')"
    by code_simp
  have b1: "first_numbered [js ''shorter than '', js ''less than ''] []
      (toLowerCase ascii_runtime ?q1) = None"
    by code_simp
  have a2: "first_numbered [js ''longer than ''] [] (toLowerCase ascii_runtime ?q2) = None"
    by code_simp
  have b2: "first_numbered [js ''shorter than '', js ''less than ''] []
      (toLowerCase ascii_runtime ?q2) = Some (js ''3'')"
    by code_simp
  have d1: "digits_value (js ''10'') = 10" and d2: "digits_value (js ''3'') = 3"
    by (simp_all add: digits_value_def digit_value_def js_def)
  from longer_shorter_bounds [of ascii_runtime ?q1 "js ''10''" "js ''3''"] a1 b1 d1
  have 1: "\<exists>f. parseNaturalLanguageQuery ascii_runtime ?q1 = Some f
        \<and> fs_min_length f = IntVal (Num 11) \<and> fs_max_length f = Undefined"
    by auto
  from longer_shorter_bounds [of ascii_runtime ?q2 "js ''10''" "js ''3''"] a2 b2 d2
  have 2: "\<exists>f. parseNaturalLanguageQuery ascii_runtime ?q2 = Some f
        \<and> fs_max_length f = IntVal (Num 2) \<and> fs_min_length f = Undefined"
    by auto
  from 1 2 show ?thesis by blast
qed

lemma at_word_boundary_boundary: "at_word_boundary (MState b a c) = boundary b a"
  by (simp add: at_word_boundary_def boundary_def)

lemma star_greedy_iff:
  "(star_greedy p k b a c \<noteq> None)
     = (\<exists>w rest. a = w @ rest \<and> (\<forall>x \<in> set w. p x) \<and> k (MState (rev w @ b) rest c) \<noteq> None)"
proof (induction a arbitrary: b)
  case Nil
  show ?case by simp
next
  case (Cons x xs)
  show ?case
  proof (cases "p x")
    case False
    have "(\<exists>w rest. x # xs = w @ rest \<and> (\<forall>y \<in> set w. p y) \<and> k (MState (rev w @ b) rest c) \<noteq> None)
        = (k (MState b (x # xs) c) \<noteq> None)"
    proof
      assume "\<exists>w rest. x # xs = w @ rest \<and> (\<forall>y \<in> set w. p y) \<and> k (MState (rev w @ b) rest c) \<noteq> None"
      then obtain w rest where e: "x # xs = w @ rest" and a: "\<forall>y \<in> set w. p y"
        and k: "k (MState (rev w @ b) rest c) \<noteq> None" by blast
      from e a False have "w = []" by (cases w) auto
      with e k show "k (MState b (x # xs) c) \<noteq> None" by simp
    next
      assume "k (MState b (x # xs) c) \<noteq> None"
      then have "x # xs = [] @ (x # xs) \<and> (\<forall>y \<in> set []. p y) \<and> k (MState (rev [] @ b) (x # xs) c) \<noteq> None"
        by simp
      then show "\<exists>w rest. x # xs = w @ rest \<and> (\<forall>y \<in> set w. p y) \<and> k (MState (rev w @ b) rest c) \<noteq> None"
        by blast
    qed
    with False show ?thesis by simp
  next
    case True
    have l: "(star_greedy p k b (x # xs) c \<noteq> None)
        = (star_greedy p k (x # b) xs c \<noteq> None \<or> k (MState b (x # xs) c) \<noteq> None)"
      using True by (simp split: option.splits)
    have "(\<exists>w rest. x # xs = w @ rest \<and> (\<forall>y \<in> set w. p y) \<and> k (MState (rev w @ b) rest c) \<noteq> None)
        = ((\<exists>w rest. xs = w @ rest \<and> (\<forall>y \<in> set w. p y) \<and> k (MState (rev w @ x # b) rest c) \<noteq> None)
           \<or> k (MState b (x # xs) c) \<noteq> None)"
      (is "?L = (?A \<or> ?B)")
    proof
      assume ?L
      then obtain w rest where e: "x # xs = w @ rest" and a: "\<forall>y \<in> set w. p y"
        and k: "k (MState (rev w @ b) rest c) \<noteq> None" by blast
      show "?A \<or> ?B"
      proof (cases w)
        case Nil
        with e k show ?thesis by simp
      next
        case (Cons y w')
        with e a k have "xs = w' @ rest \<and> (\<forall>y \<in> set w'. p y) \<and> k (MState (rev w' @ x # b) rest c) \<noteq> None"
          by simp
        then show ?thesis by blast
      qed
    next
      assume "?A \<or> ?B"
      then show ?L
      proof
        assume ?A
        then obtain w rest where "xs = w @ rest" "\<forall>y \<in> set w. p y"
          "k (MState (rev w @ x # b) rest c) \<noteq> None" by blast
        with True have "x # xs = (x # w) @ rest \<and> (\<forall>y \<in> set (x # w). p y)
            \<and> k (MState (rev (x # w) @ b) rest c) \<noteq> None" by simp
        then show ?L by blast
      next
        assume ?B
        then have "x # xs = [] @ (x # xs) \<and> (\<forall>y \<in> set []. p y) \<and> k (MState (rev [] @ b) (x # xs) c) \<noteq> None"
          by simp
        then show ?L by blast
      qed
    qed
    with l Cons.IH [of "x # b"] show ?thesis by simp
  qed
qed


lemma capture_blindD:
  "capture_blind k \<Longrightarrow> (k (MState b a c) \<noteq> None) = (k (MState b a c') \<noteq> None)"
  unfolding capture_blind_def by metis

lemma capture_blind_Some: "capture_blind Some"
  by (simp add: capture_blind_def)

lemma rmatch_iff:
  "capture_blind k \<Longrightarrow>
   (rmatch r k (MState b a c) \<noteq> None)
     = (\<exists>w rest. a = w @ rest \<and> matches r b w rest \<and> k (MState (rev w @ b) rest c) \<noteq> None)"
proof (induction r arbitrary: k b a c)
  case (Lit l)
  show ?case
    by (auto simp: strip_prefix_prefix prefix_def)
next
  case (Cls p)
  show ?case
  proof (cases a)
    case Nil
    then show ?thesis by simp
  next
    case (Cons x xs)
    have "(\<exists>w rest. x # xs = w @ rest \<and> (\<exists>y. w = [y] \<and> p y)
          \<and> k (MState (rev w @ b) rest c) \<noteq> None)
        = (p x \<and> k (MState (x # b) xs c) \<noteq> None)"
      (is "?L = ?R")
    proof
      assume ?L
      then obtain w rest y where "x # xs = w @ rest" "w = [y]" "p y"
        "k (MState (rev w @ b) rest c) \<noteq> None" by blast
      then show ?R by simp
    next
      assume ?R
      then have "x # xs = [x] @ xs \<and> (\<exists>y. [x] = [y] \<and> p y)
          \<and> k (MState (rev [x] @ b) xs c) \<noteq> None" by simp
      then show ?L by blast
    qed
    with Cons show ?thesis by simp
  qed
next
  case WordB
  show ?case by (auto simp: at_word_boundary_boundary)
next
  case (Cat r1 r2)
  have cb: "capture_blind (rmatch r2 k)"
    unfolding capture_blind_def
  proof (intro allI)
    fix b a c c'
    have kk: "(k (MState b' a' c) \<noteq> None) = (k (MState b' a' c') \<noteq> None)" for b' a'
      by (rule capture_blindD [OF Cat.prems])
    have "(rmatch r2 k (MState b a c) \<noteq> None) = (rmatch r2 k (MState b a c') \<noteq> None)"
      unfolding Cat.IH(2) [OF Cat.prems] by (simp only: kk)
    then show "(rmatch r2 k (MState b a c) = None) = (rmatch r2 k (MState b a c') = None)"
      by blast
  qed
  have "(rmatch (Cat r1 r2) k (MState b a c) \<noteq> None)
      = (\<exists>w1 rest1. a = w1 @ rest1 \<and> matches r1 b w1 rest1
           \<and> rmatch r2 k (MState (rev w1 @ b) rest1 c) \<noteq> None)"
    using Cat.IH(1) [OF cb] by simp
  also have "\<dots> = (\<exists>w1 rest1. a = w1 @ rest1 \<and> matches r1 b w1 rest1
           \<and> (\<exists>w2 rest. rest1 = w2 @ rest \<and> matches r2 (rev w1 @ b) w2 rest
                 \<and> k (MState (rev w2 @ rev w1 @ b) rest c) \<noteq> None))"
    unfolding Cat.IH(2) [OF Cat.prems] by simp
  also have "\<dots> = (\<exists>w rest. a = w @ rest \<and> matches (Cat r1 r2) b w rest
           \<and> k (MState (rev w @ b) rest c) \<noteq> None)"
    (is "?L = ?R")
  proof
    assume ?L
    then obtain w1 w2 rest where "a = w1 @ w2 @ rest" "matches r1 b w1 (w2 @ rest)"
      "matches r2 (rev w1 @ b) w2 rest" "k (MState (rev w2 @ rev w1 @ b) rest c) \<noteq> None"
      by blast
    then have "a = (w1 @ w2) @ rest \<and> matches (Cat r1 r2) b (w1 @ w2) rest
        \<and> k (MState (rev (w1 @ w2) @ b) rest c) \<noteq> None"
      by auto
    then show ?R by blast
  next
    assume ?R
    then obtain w rest where a: "a = w @ rest" and m: "matches (Cat r1 r2) b w rest"
      and k: "k (MState (rev w @ b) rest c) \<noteq> None" by blast
    from m obtain w1 w2 where "w = w1 @ w2" "matches r1 b w1 (w2 @ rest)"
      "matches r2 (rev w1 @ b) w2 rest" by auto
    with a k have "a = w1 @ (w2 @ rest) \<and> matches r1 b w1 (w2 @ rest)
        \<and> (\<exists>w2' rest'. w2 @ rest = w2' @ rest' \<and> matches r2 (rev w1 @ b) w2' rest'
              \<and> k (MState (rev w2' @ rev w1 @ b) rest' c) \<noteq> None)"
      by auto
    then show ?L by blast
  qed
  finally show ?case .
next
  case (Alt r1 r2)
  have "(rmatch (Alt r1 r2) k (MState b a c) \<noteq> None)
      = (rmatch r1 k (MState b a c) \<noteq> None \<or> rmatch r2 k (MState b a c) \<noteq> None)"
    by (simp split: option.splits)
  then show ?case
    unfolding Alt.IH(1) [OF Alt.prems] Alt.IH(2) [OF Alt.prems] by auto
next
  case (Star p)
  show ?case using star_greedy_iff [of p k b a c] by simp
next
  case (Plus p)
  show ?case
  proof (cases a)
    case Nil
    then show ?thesis by simp
  next
    case (Cons x xs)
    show ?thesis
    proof (cases "p x")
      case False
      have "\<not> (\<exists>w rest. x # xs = w @ rest \<and> (w \<noteq> [] \<and> (\<forall>y \<in> set w. p y))
          \<and> k (MState (rev w @ b) rest c) \<noteq> None)"
      proof
        assume "\<exists>w rest. x # xs = w @ rest \<and> (w \<noteq> [] \<and> (\<forall>y \<in> set w. p y))
          \<and> k (MState (rev w @ b) rest c) \<noteq> None"
        then obtain w rest where "x # xs = w @ rest" "w \<noteq> []" "\<forall>y \<in> set w. p y" by blast
        with False show False by (cases w) auto
      qed
      with False Cons show ?thesis by simp
    next
      case True
      have "(\<exists>w rest. xs = w @ rest \<and> (\<forall>y \<in> set w. p y) \<and> k (MState (rev w @ x # b) rest c) \<noteq> None)
          = (\<exists>w rest. x # xs = w @ rest \<and> (w \<noteq> [] \<and> (\<forall>y \<in> set w. p y))
              \<and> k (MState (rev w @ b) rest c) \<noteq> None)"
        (is "?L = ?R")
      proof
        assume ?L
        then obtain w rest where "xs = w @ rest" "\<forall>y \<in> set w. p y"
          "k (MState (rev w @ x # b) rest c) \<noteq> None" by blast
        with True have "x # xs = (x # w) @ rest \<and> (x # w \<noteq> [] \<and> (\<forall>y \<in> set (x # w). p y))
            \<and> k (MState (rev (x # w) @ b) rest c) \<noteq> None" by simp
        then show ?R by blast
      next
        assume ?R
        then obtain w rest where e: "x # xs = w @ rest" and n: "w \<noteq> []"
          and a: "\<forall>y \<in> set w. p y" and k: "k (MState (rev w @ b) rest c) \<noteq> None" by blast
        from n obtain y w' where w: "w = y # w'" by (cases w) auto
        with e a k have "xs = w' @ rest \<and> (\<forall>y \<in> set w'. p y)
            \<and> k (MState (rev w' @ x # b) rest c) \<noteq> None" by simp
        then show ?L by blast
      qed
      with True Cons star_greedy_iff [of p k "x # b" xs c] show ?thesis by simp
    qed
  qed
next
  case (Opt r)
  have "(rmatch (Opt r) k (MState b a c) \<noteq> None)
      = (rmatch r k (MState b a c) \<noteq> None \<or> k (MState b a c) \<noteq> None)"
    by (simp split: option.splits)
  also have "\<dots> = ((\<exists>w rest. a = w @ rest \<and> matches r b w rest
           \<and> k (MState (rev w @ b) rest c) \<noteq> None) \<or> k (MState b a c) \<noteq> None)"
    unfolding Opt.IH [OF Opt.prems] by simp
  also have "\<dots> = (\<exists>w rest. a = w @ rest \<and> matches (Opt r) b w rest
           \<and> k (MState (rev w @ b) rest c) \<noteq> None)"
    (is "(?A \<or> ?B) = ?R")
  proof
    assume "?A \<or> ?B"
    then show ?R
    proof
      assume ?A
      then show ?R by auto
    next
      assume ?B
      then have "a = [] @ a \<and> matches (Opt r) b [] a \<and> k (MState (rev [] @ b) a c) \<noteq> None"
        by simp
      then show ?R by blast
    qed
  next
    assume ?R
    then obtain w rest where e: "a = w @ rest" and m: "matches (Opt r) b w rest"
      and k: "k (MState (rev w @ b) rest c) \<noteq> None" by blast
    show "?A \<or> ?B"
    proof (cases "w = []")
      case True
      with e k show ?thesis by simp
    next
      case False
      with m have "matches r b w rest" by simp
      with e k have ?A by blast
      then show ?thesis ..
    qed
  qed
  finally show ?case .
next
  case (Group n r)
  let ?k = "\<lambda>st'. k (MState (before st') (after st')
        ((captures st')(n \<mapsto> rev (take (length (before st') - length b) (before st')))))"
  have cb: "capture_blind ?k"
    using Group.prems unfolding capture_blind_def by simp
  have kk: "(?k (MState b' a' c) \<noteq> None) = (k (MState b' a' c) \<noteq> None)" for b' a'
    using capture_blindD [OF Group.prems] by simp
  have "(rmatch (Group n r) k (MState b a c) \<noteq> None) = (rmatch r ?k (MState b a c) \<noteq> None)"
    by simp
  also have "\<dots> = (\<exists>w rest. a = w @ rest \<and> matches r b w rest
        \<and> ?k (MState (rev w @ b) rest c) \<noteq> None)"
    by (rule Group.IH [OF cb])
  also have "\<dots> = (\<exists>w rest. a = w @ rest \<and> matches (Group n r) b w rest
        \<and> k (MState (rev w @ b) rest c) \<noteq> None)"
    unfolding kk by simp
  finally show ?case .
qed

lemma match_here_iff:
  "(match_here r b a \<noteq> None) = (\<exists>w rest. a = w @ rest \<and> matches r b w rest)"
  using rmatch_iff [OF capture_blind_Some, of r b a Map.empty]
  by (simp add: match_here_def)

lemma search_iff:
  "(search r b a \<noteq> None)
     = (\<exists>pre w rest. a = pre @ w @ rest \<and> matches r (rev pre @ b) w rest)"
proof (induction a arbitrary: b)
  case Nil
  show ?case using match_here_iff [of r b "[]"] by auto
next
  case (Cons x xs)
  have "(search r b (x # xs) \<noteq> None)
      = (match_here r b (x # xs) \<noteq> None \<or> search r (x # b) xs \<noteq> None)"
    by (simp split: option.splits)
  also have "\<dots> = ((\<exists>w rest. x # xs = w @ rest \<and> matches r b w rest)
      \<or> (\<exists>pre w rest. xs = pre @ w @ rest \<and> matches r (rev pre @ x # b) w rest))"
    unfolding match_here_iff Cons.IH by simp
  also have "\<dots> = (\<exists>pre w rest. x # xs = pre @ w @ rest \<and> matches r (rev pre @ b) w rest)"
    (is "(?A \<or> ?B) = ?R")
  proof
    assume "?A \<or> ?B"
    then show ?R
    proof
      assume ?A
      then obtain w rest where "x # xs = [] @ w @ rest \<and> matches r (rev [] @ b) w rest" by auto
      then show ?R by blast
    next
      assume ?B
      then obtain pre w rest where "xs = pre @ w @ rest" "matches r (rev pre @ x # b) w rest"
        by blast
      then have "x # xs = (x # pre) @ w @ rest \<and> matches r (rev (x # pre) @ b) w rest" by simp
      then show ?R by blast
    qed
  next
    assume ?R
    then obtain pre w rest where e: "x # xs = pre @ w @ rest"
      and m: "matches r (rev pre @ b) w rest" by blast
    show "?A \<or> ?B"
    proof (cases pre)
      case Nil
      with e m have ?A by auto
      then show ?thesis ..
    next
      case (Cons y pre')
      with e m have "xs = pre' @ w @ rest \<and> matches r (rev pre' @ x # b) w rest" by simp
      then have ?B by blast
      then show ?thesis ..
    qed
  qed
  finally show ?case .
qed

lemma test_iff:
  "test r s = (\<exists>pre w rest. s = pre @ w @ rest \<and> matches r (rev pre) w rest)"
  using search_iff [of r "[]" s] by (simp add: test_def exec_def)

lemma boundary_start:
  "is_word c \<Longrightarrow> boundary (rev pre) (c # r) = word_start pre"
  by (cases pre rule: rev_cases) (auto simp: boundary_def word_start_def)

lemma boundary_end:
  "is_word c \<Longrightarrow> boundary (c # b) rest = word_end rest"
  by (cases rest) (auto simp: boundary_def word_end_def)

lemma boundary_end_rev:
  "u \<noteq> [] \<Longrightarrow> is_word (last u) \<Longrightarrow> boundary (rev u @ b) rest = word_end rest"
  by (cases u rule: rev_cases) (auto simp: boundary_end)

lemma boundary_start_kw:
  "kw \<noteq> [] \<Longrightarrow> is_word (hd kw) \<Longrightarrow> boundary (rev pre) (kw @ r) = word_start pre"
  by (cases kw) (auto simp: boundary_start)

lemma keyword_ends:
  "js ''palindrom'' \<noteq> [] \<and> is_word (hd (js ''palindrom'')) \<and> is_word (last (js ''palindrom''))"
  "js ''word count is 1'' \<noteq> [] \<and> is_word (hd (js ''word count is 1''))
     \<and> is_word (last (js ''word count is 1''))"
  "js ''word'' \<noteq> [] \<and> is_word (hd (js ''word'')) \<and> is_word (last (js ''word''))"
  "js ''single'' \<noteq> [] \<and> is_word (hd (js ''single'')) \<and> is_word (last (js ''single''))"
  "js ''one'' \<noteq> [] \<and> is_word (hd (js ''one'')) \<and> is_word (last (js ''one''))"
  "js ''contain'' \<noteq> [] \<and> is_word (hd (js ''contain''))"
  "js ''s'' \<noteq> [] \<and> is_word (last (js ''s''))"
  by (simp_all add: js_def is_word_def is_ascii_letter_def is_digit_def)

lemma test_word_count_is_1: "test re_word_count_is_1 s = mentions_word_count_is_1 s"
proof -
  have "test re_word_count_is_1 s
      = (\<exists>pre rest. s = pre @ js ''word count is 1'' @ rest
           \<and> boundary (rev pre) (js ''word count is 1'' @ rest)
           \<and> boundary (rev (js ''word count is 1'') @ rev pre) rest)"
    by (simp add: test_iff re_word_count_is_1_def)
  also have "\<dots> = mentions_word_count_is_1 s"
    using keyword_ends(2)
    by (simp add: mentions_word_count_is_1_def boundary_start_kw boundary_end_rev)
  finally show ?thesis .
qed

lemma test_palindrome: "test re_palindrome s = mentions_palindrome s"
proof -
  let ?P = "js ''palindrom''"
  have "test re_palindrome s
      = (\<exists>pre w rest. s = pre @ w @ rest \<and> boundary (rev pre) (w @ rest)
           \<and> (\<exists>w2. w = ?P @ w2 \<and> (\<forall>x \<in> set w2. is_word x)
                 \<and> boundary (rev w2 @ rev ?P @ rev pre) rest))"
    by (simp add: test_iff re_palindrome_def)
  also have "\<dots> = mentions_palindrome s" (is "?L = ?R")
  proof
    assume ?L
    then obtain pre w2 rest where s: "s = pre @ (?P @ w2) @ rest"
      and b: "boundary (rev pre) ((?P @ w2) @ rest)" by blast
    from b have "word_start pre"
      using keyword_ends(1) boundary_start_kw [of ?P pre "w2 @ rest"] by simp
    with s have "s = pre @ ?P @ (w2 @ rest) \<and> word_start pre" by simp
    then show ?R unfolding mentions_palindrome_def by blast
  next
    assume ?R
    then obtain pre rest0 where s: "s = pre @ ?P @ rest0" and ws: "word_start pre"
      unfolding mentions_palindrome_def by blast
    let ?w2 = "takeWhile is_word rest0" and ?rest = "dropWhile is_word rest0"
    have 1: "s = pre @ (?P @ ?w2) @ ?rest" using s by simp
    have 2: "boundary (rev pre) ((?P @ ?w2) @ ?rest)"
      using ws keyword_ends(1) boundary_start_kw [of ?P pre "?w2 @ ?rest"] by simp
    have 3: "\<forall>x \<in> set ?w2. is_word x" by (auto dest: set_takeWhileD)
    have l: "is_word (last (?P @ ?w2))"
      using keyword_ends(1) 3 by (cases "?w2 = []") auto
    have we: "word_end ?rest"
      unfolding word_end_def using hd_dropWhile [of is_word rest0] by blast
    have "boundary (rev (?P @ ?w2) @ rev pre) ?rest = word_end ?rest"
      using l keyword_ends(1) by (intro boundary_end_rev) auto
    with we have 4: "boundary (rev ?w2 @ rev ?P @ rev pre) ?rest" by simp
    from 1 2 3 4 show ?L by blast
  qed
  finally show ?thesis .
qed

lemma digit_is_word: "is_digit c \<Longrightarrow> is_word c"
  by (simp add: is_word_def)

lemma letter_is_word: "is_ascii_letter c \<Longrightarrow> is_word c"
  by (simp add: is_word_def)

lemma test_n_words: "test re_n_words s = mentions_n_words s"
proof -
  let ?W = "js ''word''"
  have "test re_n_words s
      = (\<exists>pre w rest. s = pre @ w @ rest \<and> boundary (rev pre) (w @ rest)
           \<and> (\<exists>w1 w2. w = w1 @ w2 \<and> w1 \<noteq> [] \<and> (\<forall>x \<in> set w1. is_digit x)
                 \<and> (\<exists>w1a w2a. w2 = w1a @ w2a \<and> w1a \<noteq> [] \<and> (\<forall>x \<in> set w1a. is_space x)
                       \<and> (\<exists>w2. w2a = ?W @ w2 \<and> (w2 = [] \<or> w2 = js ''s'')
                             \<and> boundary (rev w2 @ rev ?W @ rev w1a @ rev w1 @ rev pre) rest))))"
    by (simp add: test_iff re_n_words_def)
  also have "\<dots> = mentions_n_words s" (is "?L = ?R")
  proof -
    have start: "boundary (rev pre) ((ds @ ws @ ?W @ pl) @ rest) = word_start pre"
      if "ds \<noteq> []" "\<forall>x \<in> set ds. is_digit x" for pre ds ws pl rest
    proof -
      from that have "is_word (hd ds)" by (cases ds) (auto simp: digit_is_word)
      with that(1) boundary_start_kw [of ds pre "ws @ ?W @ pl @ rest"] show ?thesis by simp
    qed
    have fin: "boundary (rev pl @ rev ?W @ rev ws @ rev ds @ rev pre) rest = word_end rest"
      if "pl = [] \<or> pl = js ''s''" for pl ws ds pre rest
    proof -
      from that have "?W @ pl \<noteq> [] \<and> is_word (last (?W @ pl))"
        using keyword_ends(3) keyword_ends(7) by auto
      then have "boundary (rev (?W @ pl) @ (rev ws @ rev ds @ rev pre)) rest = word_end rest"
        by (intro boundary_end_rev) auto
      then show ?thesis by simp
    qed
    show ?thesis
    proof
      assume ?L
      then obtain pre ds ws pl rest where s: "s = pre @ (ds @ ws @ ?W @ pl) @ rest"
        and b: "boundary (rev pre) ((ds @ ws @ ?W @ pl) @ rest)"
        and d: "ds \<noteq> []" "\<forall>x \<in> set ds. is_digit x"
        and w: "ws \<noteq> []" "\<forall>x \<in> set ws. is_space x"
        and p: "pl = [] \<or> pl = js ''s''"
        and e: "boundary (rev pl @ rev ?W @ rev ws @ rev ds @ rev pre) rest"
        by blast
      from b start [OF d] have "word_start pre" by simp
      moreover from e fin [OF p] have "word_end rest" by simp
      moreover from s have "s = pre @ ds @ ws @ ?W @ pl @ rest" by simp
      ultimately show ?R unfolding mentions_n_words_def using d w p by blast
    next
      assume ?R
      then obtain pre ds ws pl rest where s: "s = pre @ ds @ ws @ ?W @ pl @ rest"
        and d: "ds \<noteq> []" "\<forall>x \<in> set ds. is_digit x"
        and w: "ws \<noteq> []" "\<forall>x \<in> set ws. is_space x"
        and p: "pl = [] \<or> pl = js ''s''"
        and ws: "word_start pre" and we: "word_end rest"
        unfolding mentions_n_words_def by blast
      have 1: "s = pre @ (ds @ ws @ ?W @ pl) @ rest" using s by simp
      have 2: "boundary (rev pre) ((ds @ ws @ ?W @ pl) @ rest)" using ws start [OF d] by simp
      have 3: "boundary (rev pl @ rev ?W @ rev ws @ rev ds @ rev pre) rest"
        using we fin [OF p] by simp
      have "\<exists>w1 w2. ds @ ws @ ?W @ pl = w1 @ w2 \<and> w1 \<noteq> [] \<and> (\<forall>x \<in> set w1. is_digit x)
                 \<and> (\<exists>w1a w2a. w2 = w1a @ w2a \<and> w1a \<noteq> [] \<and> (\<forall>x \<in> set w1a. is_space x)
                       \<and> (\<exists>w2. w2a = ?W @ w2 \<and> (w2 = [] \<or> w2 = js ''s'')
                             \<and> boundary (rev w2 @ rev ?W @ rev w1a @ rev w1 @ rev pre) rest))"
        using d w p 3 by blast
      with 1 2 show ?L by blast
    qed
  qed
  finally show ?thesis .
qed


lemma one_word_boundaries:
  assumes a: "a \<noteq> []" "is_word (hd a)" "is_word (last a)"
  shows "(boundary (rev pre) ((a @ mid @ js ''word'') @ rest)
          \<and> boundary (rev a @ rev pre) ((mid @ js ''word'') @ rest)
          \<and> boundary (rev mid @ rev a @ rev pre) (js ''word'' @ rest)
          \<and> boundary (rev (js ''word'') @ rev mid @ rev a @ rev pre) rest)
       = (word_start pre \<and> mid \<noteq> [] \<and> \<not> is_word (hd mid) \<and> \<not> is_word (last mid)
          \<and> word_end rest)"
proof -
  let ?W = "js ''word''"
  have A: "boundary (rev pre) ((a @ mid @ ?W) @ rest) = word_start pre"
    using boundary_start_kw [OF a(1) a(2), of pre "mid @ ?W @ rest"] by simp
  have B: "boundary (rev a @ rev pre) ((mid @ ?W) @ rest) = (mid \<noteq> [] \<and> \<not> is_word (hd mid))"
  proof -
    have "boundary (rev a @ rev pre) ((mid @ ?W) @ rest) = word_end ((mid @ ?W) @ rest)"
      by (rule boundary_end_rev [OF a(1) a(3)])
    also have "\<dots> = (mid \<noteq> [] \<and> \<not> is_word (hd mid))"
      using keyword_ends(3) by (cases mid) (auto simp: word_end_def)
    finally show ?thesis .
  qed
  have C: "boundary (rev mid @ rev a @ rev pre) (?W @ rest) = (\<not> is_word (last mid))"
    if "mid \<noteq> []"
  proof -
    have "boundary (rev (pre @ a @ mid)) (?W @ rest) = word_start (pre @ a @ mid)"
      using keyword_ends(3) by (intro boundary_start_kw) auto
    with that show ?thesis by (simp add: word_start_def)
  qed
  have D: "boundary (rev ?W @ rev mid @ rev a @ rev pre) rest = word_end rest"
    using keyword_ends(3) by (intro boundary_end_rev) auto
  show ?thesis
    unfolding A B D using C by blast
qed

lemma test_single_word: "test re_single_word s = mentions_one_word s"
proof -
  let ?W = "js ''word''"
  have "test re_single_word s
      = (\<exists>pre w rest. s = pre @ w @ rest \<and> boundary (rev pre) (w @ rest)
           \<and> (\<exists>w1 w2. w = w1 @ w2 \<and> (w1 = js ''single'' \<or> w1 = js ''one'')
                 \<and> boundary (rev w1 @ rev pre) (w2 @ rest)
                 \<and> (\<exists>w1a. w2 = w1a @ ?W \<and> (\<forall>x \<in> set w1a. is_dot x)
                       \<and> boundary (rev w1a @ rev w1 @ rev pre) (?W @ rest)
                       \<and> boundary (rev ?W @ rev w1a @ rev w1 @ rev pre) rest)))"
    by (simp add: test_iff re_single_word_def)
  also have "\<dots> = mentions_one_word s" (is "?L = ?R")
  proof
    assume ?L
    then obtain pre a mid rest where s: "s = pre @ (a @ mid @ ?W) @ rest"
      and a: "a = js ''single'' \<or> a = js ''one''"
      and d: "\<forall>x \<in> set mid. is_dot x"
      and b: "boundary (rev pre) ((a @ mid @ ?W) @ rest)
          \<and> boundary (rev a @ rev pre) ((mid @ ?W) @ rest)
          \<and> boundary (rev mid @ rev a @ rev pre) (?W @ rest)
          \<and> boundary (rev ?W @ rev mid @ rev a @ rev pre) rest"
      by blast
    from a have ka: "a \<noteq> []" "is_word (hd a)" "is_word (last a)"
      using keyword_ends(4) keyword_ends(5) by auto
    from b have c: "word_start pre \<and> mid \<noteq> [] \<and> \<not> is_word (hd mid) \<and> \<not> is_word (last mid)
          \<and> word_end rest"
      unfolding one_word_boundaries [OF ka] .
    from s have "s = pre @ a @ mid @ ?W @ rest" by simp
    with a c d show ?R unfolding mentions_one_word_def is_dot_def by blast
  next
    assume ?R
    then obtain pre a mid rest where s: "s = pre @ a @ mid @ ?W @ rest"
      and a: "a = js ''single'' \<or> a = js ''one''"
      and c: "word_start pre \<and> mid \<noteq> [] \<and> \<not> is_word (hd mid) \<and> \<not> is_word (last mid)
          \<and> word_end rest"
      and d: "\<forall>x \<in> set mid. is_dot x"
      unfolding mentions_one_word_def is_dot_def by blast
    from a have ka: "a \<noteq> []" "is_word (hd a)" "is_word (last a)"
      using keyword_ends(4) keyword_ends(5) by auto
    from c have b: "boundary (rev pre) ((a @ mid @ ?W) @ rest)
          \<and> boundary (rev a @ rev pre) ((mid @ ?W) @ rest)
          \<and> boundary (rev mid @ rev a @ rev pre) (?W @ rest)
          \<and> boundary (rev ?W @ rev mid @ rev a @ rev pre) rest"
      unfolding one_word_boundaries [OF ka] .
    have 1: "s = pre @ (a @ mid @ ?W) @ rest" using s by simp
    have "\<exists>w1 w2. a @ mid @ ?W = w1 @ w2 \<and> (w1 = js ''single'' \<or> w1 = js ''one'')
                 \<and> boundary (rev w1 @ rev pre) (w2 @ rest)
                 \<and> (\<exists>w1a. w2 = w1a @ ?W \<and> (\<forall>x \<in> set w1a. is_dot x)
                       \<and> boundary (rev w1a @ rev w1 @ rev pre) (?W @ rest)
                       \<and> boundary (rev ?W @ rev w1a @ rev w1 @ rev pre) rest)"
      using a b d by (intro exI [of _ a] exI [of _ "mid @ ?W"]) auto
    with 1 b show ?L by blast
  qed
  finally show ?thesis .
qed

lemma letter_head:
  "matches (Alt (seq [Lit (js ''contain''), Opt (Alt (Lit (js ''ing'')) (Lit (js ''s''))),
               Opt (Lit (js '' the'')), Opt (Lit (js '' letter''))])
         (Lit (js ''containing''))) b w r
   = (\<exists>en t l. w = js ''contain'' @ en @ t @ l
         \<and> (en = [] \<or> en = js ''ing'' \<or> en = js ''s'')
         \<and> (t = [] \<or> t = js '' the'') \<and> (l = [] \<or> l = js '' letter''))"
  (is "?M = ?R")
proof -
  let ?C = "js ''contain''"
  have "?M = ((\<exists>tl0. w = ?C @ tl0 \<and> (\<exists>en tl. tl0 = en @ tl
                \<and> (en = [] \<or> en = js ''ing'' \<or> en = js ''s'')
                \<and> (\<exists>t l. tl = t @ l \<and> (t = [] \<or> t = js '' the'')
                      \<and> (l = [] \<or> l = js '' letter''))))
              \<or> w = js ''containing'')"
    by simp
  also have "\<dots> = ?R" (is "(?A \<or> ?B) = _")
  proof
    assume "?A \<or> ?B"
    then show ?R
    proof
      assume ?A
      then obtain tl0 en tl where 0: "w = ?C @ tl0" "tl0 = en @ tl"
        and 1: "en = [] \<or> en = js ''ing'' \<or> en = js ''s''"
        and "\<exists>t l. tl = t @ l \<and> (t = [] \<or> t = js '' the'') \<and> (l = [] \<or> l = js '' letter'')"
        by blast
      then obtain t l where 2: "tl = t @ l" "t = [] \<or> t = js '' the''"
        "l = [] \<or> l = js '' letter''"
        by blast
      from 0 1 2 have "w = ?C @ en @ t @ l \<and> (en = [] \<or> en = js ''ing'' \<or> en = js ''s'')
         \<and> (t = [] \<or> t = js '' the'') \<and> (l = [] \<or> l = js '' letter'')" by simp
      then show ?R by (intro exI)
    next
      assume ?B
      then have "w = ?C @ js ''ing'' @ [] @ [] \<and> (js ''ing'' = [] \<or> js ''ing'' = js ''ing'' \<or> js ''ing'' = js ''s'')
         \<and> ([] = [] \<or> [] = js '' the'') \<and> ([] = [] \<or> [] = js '' letter'')"
        by (simp add: js_def)
      then show ?R by (intro exI)
    qed
  next
    assume ?R
    then obtain en t l where "w = ?C @ en @ t @ l" "en = [] \<or> en = js ''ing'' \<or> en = js ''s''"
      "t = [] \<or> t = js '' the''" "l = [] \<or> l = js '' letter''"
      by (elim exE conjE)
    then have "w = ?C @ (en @ t @ l) \<and> (en @ t @ l = en @ (t @ l)
                \<and> (en = [] \<or> en = js ''ing'' \<or> en = js ''s'')
                \<and> (t @ l = t @ l \<and> (t = [] \<or> t = js '' the'')
                      \<and> (l = [] \<or> l = js '' letter'')))"
      by simp
    then have ?A by blast
    then show "?A \<or> ?B" ..
  qed
  finally show ?thesis .
qed

lemma test_letter: "test re_letter s = mentions_letter s"
proof -
  let ?C = "js ''contain''"
  define H where "H = Alt (seq [Lit (js ''contain''), Opt (Alt (Lit (js ''ing'')) (Lit (js ''s''))),
               Opt (Lit (js '' the'')), Opt (Lit (js '' letter''))])
         (Lit (js ''containing''))"
  have H: "matches H b w r = (\<exists>en t l. w = ?C @ en @ t @ l
         \<and> (en = [] \<or> en = js ''ing'' \<or> en = js ''s'')
         \<and> (t = [] \<or> t = js '' the'') \<and> (l = [] \<or> l = js '' letter''))" for b w r
    unfolding H_def by (rule letter_head)
  have re: "re_letter = Cat WordB (Cat H (Cat (Plus is_space)
      (Cat (Group 1 (Cls is_ascii_letter)) WordB)))"
    by (simp add: re_letter_def H_def)
  have "test re_letter s
      = (\<exists>pre w rest. s = pre @ w @ rest \<and> boundary (rev pre) (w @ rest)
           \<and> (\<exists>w1 w2. w = w1 @ w2 \<and> matches H (rev pre) w1 (w2 @ rest)
                 \<and> (\<exists>w1a w2a. w2 = w1a @ w2a \<and> w1a \<noteq> [] \<and> (\<forall>x \<in> set w1a. is_space x)
                       \<and> (\<exists>c. w2a = [c] \<and> is_ascii_letter c)
                       \<and> boundary (rev w2a @ rev w1a @ rev w1 @ rev pre) rest)))"
    unfolding re by (simp add: test_iff)
  also have "\<dots> = mentions_letter s" (is "?L = ?R")
  proof
    assume ?L
    then obtain pre w1 ws x rest where s: "s = pre @ (w1 @ ws @ [x]) @ rest"
      and b: "boundary (rev pre) ((w1 @ ws @ [x]) @ rest)"
      and k: "matches H (rev pre) w1 ((ws @ [x]) @ rest)"
      and w: "ws \<noteq> []" "\<forall>c \<in> set ws. is_space c" and x: "is_ascii_letter x"
      and e: "boundary (rev [x] @ rev ws @ rev w1 @ rev pre) rest"
      by blast
    from k obtain en t l where w1: "w1 = ?C @ en @ t @ l"
      and opts: "en = [] \<or> en = js ''ing'' \<or> en = js ''s''" "t = [] \<or> t = js '' the''"
        "l = [] \<or> l = js '' letter''"
      unfolding H by (elim exE conjE)
    from b w1 have ws: "word_start pre"
      using keyword_ends(6) boundary_start_kw [of ?C pre "en @ t @ l @ ws @ [x] @ rest"]
      by simp
    from e x have we: "word_end rest"
      using boundary_end [OF letter_is_word, of x "rev ws @ rev w1 @ rev pre" rest] by simp
    from s w1 have "s = pre @ ?C @ en @ t @ l @ ws @ x # rest" by simp
    with opts w x ws we have "s = pre @ ?C @ en @ t @ l @ ws @ x # rest
      \<and> (en = [] \<or> en = js ''ing'' \<or> en = js ''s'') \<and> (t = [] \<or> t = js '' the'')
      \<and> (l = [] \<or> l = js '' letter'') \<and> ws \<noteq> [] \<and> (\<forall>c\<in>set ws. is_space c)
      \<and> is_ascii_letter x \<and> word_start pre \<and> word_end rest"
      by (intro conjI)
    then show ?R unfolding mentions_letter_def by (intro exI)
  next
    assume ?R
    then obtain pre en t l ws x rest where s: "s = pre @ ?C @ en @ t @ l @ ws @ x # rest"
      and opts: "en = [] \<or> en = js ''ing'' \<or> en = js ''s''" "t = [] \<or> t = js '' the''"
        "l = [] \<or> l = js '' letter''"
      and w: "ws \<noteq> []" "\<forall>c \<in> set ws. is_space c" and x: "is_ascii_letter x"
      and ws: "word_start pre" and we: "word_end rest"
      unfolding mentions_letter_def by (elim exE conjE)
    let ?w1 = "?C @ en @ t @ l"
    have 1: "s = pre @ (?w1 @ ws @ [x]) @ rest" using s by simp
    have 2: "boundary (rev pre) ((?w1 @ ws @ [x]) @ rest)"
      using ws keyword_ends(6) boundary_start_kw [of ?C pre "en @ t @ l @ ws @ [x] @ rest"]
      by simp
    have 3: "boundary (rev [x] @ rev ws @ rev ?w1 @ rev pre) rest"
      using we x boundary_end [OF letter_is_word, of x "rev ws @ rev ?w1 @ rev pre" rest] by simp
    have 4: "matches H (rev pre) ?w1 ((ws @ [x]) @ rest)"
      unfolding H using opts by blast
    have 5: "\<exists>w1a w2a. ws @ [x] = w1a @ w2a \<and> w1a \<noteq> [] \<and> (\<forall>x \<in> set w1a. is_space x)
                       \<and> (\<exists>c. w2a = [c] \<and> is_ascii_letter c)
                       \<and> boundary (rev w2a @ rev w1a @ rev ?w1 @ rev pre) rest"
      by (rule exI [of _ ws], rule exI [of _ "[x]"]) (use w x 3 in simp)
    have 6: "\<exists>w1 w2. ?w1 @ ws @ [x] = w1 @ w2 \<and> matches H (rev pre) w1 (w2 @ rest)
                 \<and> (\<exists>w1a w2a. w2 = w1a @ w2a \<and> w1a \<noteq> [] \<and> (\<forall>x \<in> set w1a. is_space x)
                       \<and> (\<exists>c. w2a = [c] \<and> is_ascii_letter c)
                       \<and> boundary (rev w2a @ rev w1a @ rev w1 @ rev pre) rest)"
      by (rule exI [of _ ?w1], rule exI [of _ "ws @ [x]"]) (use 4 5 in simp)
    show ?L
      by (rule exI [of _ pre], rule exI [of _ "?w1 @ ws @ [x]"], rule exI [of _ rest])
        (intro conjI 1 2 6)
  qed
  finally show ?thesis .
qed

lemma numbered_keywords:
  "\<forall>kw \<in> set [js ''longer than '']. kw \<noteq> [] \<and> is_word (hd kw)"
  "\<forall>kw \<in> set [js ''shorter than '', js ''less than '']. kw \<noteq> [] \<and> is_word (hd kw)"
  by (simp_all add: js_def is_word_def is_ascii_letter_def)

lemma test_longer: "test re_longer s = mentions_longer s"
proof -
  have "test re_longer s = (first_numbered [js ''longer than ''] [] s \<noteq> None)"
    by (simp add: test_def exec_capture_longer [symmetric])
  also have "\<dots> = mentions_longer s"
    using first_numbered_occurs [OF numbered_keywords(1), of s] by (simp add: mentions_longer_def)
  finally show ?thesis .
qed

lemma test_shorter: "test re_shorter s = mentions_shorter s"
proof -
  have "test re_shorter s
      = (first_numbered [js ''shorter than '', js ''less than ''] [] s \<noteq> None)"
    by (simp add: test_def exec_capture_shorter [symmetric])
  also have "\<dots> = mentions_shorter s"
    using first_numbered_occurs [OF numbered_keywords(2), of s] by (simp add: mentions_shorter_def)
  finally show ?thesis .
qed

lemma parsed_tests:
  "(fs_is_palindrome (parsed_of rt s) \<noteq> None) = test re_palindrome s"
  "(fs_word_count (parsed_of rt s) \<noteq> Undefined)
     = (test re_single_word s \<or> test re_word_count_is_1 s \<or> test re_n_words s)"
  "(fs_min_length (parsed_of rt s) \<noteq> Undefined) = test re_longer s"
  "(fs_max_length (parsed_of rt s) \<noteq> Undefined) = test re_shorter s"
  "(fs_contains_character (parsed_of rt s) \<noteq> None) = test re_letter s"
  by (auto simp: parsed_values test_def split: option.splits)

lemma parsed_mentions:
  "(fs_is_palindrome (parsed_of rt s) \<noteq> None) = mentions_palindrome s"
  "(fs_word_count (parsed_of rt s) \<noteq> Undefined) = mentions_word_count s"
  "(fs_min_length (parsed_of rt s) \<noteq> Undefined) = mentions_longer s"
  "(fs_max_length (parsed_of rt s) \<noteq> Undefined) = mentions_shorter s"
  "(fs_contains_character (parsed_of rt s) \<noteq> None) = mentions_letter s"
  unfolding parsed_tests
  by (simp_all only: test_palindrome test_single_word test_word_count_is_1 test_n_words
      test_longer test_shorter test_letter mentions_word_count_def)

lemma no_keys_no_mention: "no_keys (parsed_of rt s) = no_mention s"
  using parsed_mentions [of rt s] unfolding no_keys_def no_mention_def by blast

lemma no_mention_tests:
  "no_mention s = (\<not> test re_palindrome s \<and> \<not> test re_single_word s
     \<and> \<not> test re_word_count_is_1 s \<and> \<not> test re_n_words s \<and> \<not> test re_longer s
     \<and> \<not> test re_shorter s \<and> \<not> test re_letter s)"
  by (simp add: no_mention_def mentions_word_count_def test_palindrome test_single_word
      test_word_count_is_1 test_n_words test_longer test_shorter test_letter)

text \<open>
  Claim C4, as the code has it.  The translator returns no result (the handler answers
  "Unable to parse") exactly when the lower-cased phrase holds none of the five mentions:
  "palindrom" at the start of a word; a word count ("single" or "one" as a word with the
  word "word" later on the line, "word count is 1", or digits, white space and "word" or
  "words"); "longer than " with a digit after it, at the start of a word; "shorter than "
  or "less than " likewise; "contain", "contains" or "containing" with an optional
  " the" and " letter", white space and a single letter.  When it holds one, the result
  is a filter set that is not empty, and a field of it is present exactly when the phrase
  holds the mention of that field.
\<close>

theorem unparseable_iff_no_mention:
  "(parseNaturalLanguageQuery rt q = None) = no_mention (toLowerCase rt q)
   \<and> (\<not> no_mention (toLowerCase rt q) \<longrightarrow>
        (\<exists>f. parseNaturalLanguageQuery rt q = Some f \<and> \<not> no_keys f \<and> f \<noteq> no_filters
           \<and> (fs_is_palindrome f \<noteq> None) = mentions_palindrome (toLowerCase rt q)
           \<and> (fs_word_count f \<noteq> Undefined) = mentions_word_count (toLowerCase rt q)
           \<and> (fs_min_length f \<noteq> Undefined) = mentions_longer (toLowerCase rt q)
           \<and> (fs_max_length f \<noteq> Undefined) = mentions_shorter (toLowerCase rt q)
           \<and> (fs_contains_character f \<noteq> None) = mentions_letter (toLowerCase rt q)))
   \<and> (q \<noteq> [] \<and> no_mention (toLowerCase rt q) \<longrightarrow>
        filter_by_natural_language rt (Some q) strings
          = ((400, ErrorBody ''Unable to parse natural language query''), strings))"
proof -
  let ?s = "toLowerCase rt q"
  have 1: "(parseNaturalLanguageQuery rt q = None) = no_mention ?s"
    by (simp add: parse_parsed_of no_keys_no_mention)
  have nk: "no_keys no_filters" by (simp add: no_keys_def no_filters_def)
  have 2: "\<exists>f. parseNaturalLanguageQuery rt q = Some f \<and> \<not> no_keys f \<and> f \<noteq> no_filters
           \<and> (fs_is_palindrome f \<noteq> None) = mentions_palindrome ?s
           \<and> (fs_word_count f \<noteq> Undefined) = mentions_word_count ?s
           \<and> (fs_min_length f \<noteq> Undefined) = mentions_longer ?s
           \<and> (fs_max_length f \<noteq> Undefined) = mentions_shorter ?s
           \<and> (fs_contains_character f \<noteq> None) = mentions_letter ?s"
    if "\<not> no_mention ?s"
  proof -
    from that have k: "\<not> no_keys (parsed_of rt ?s)" by (simp add: no_keys_no_mention)
    then have p: "parseNaturalLanguageQuery rt q = Some (parsed_of rt ?s)"
      by (simp add: parse_parsed_of)
    from k nk have ne: "parsed_of rt ?s \<noteq> no_filters" by metis
    from p k ne parsed_mentions [of rt ?s] show ?thesis by blast
  qed
  have 3: "filter_by_natural_language rt (Some q) strings
          = ((400, ErrorBody ''Unable to parse natural language query''), strings)"
    if "q \<noteq> [] \<and> no_mention ?s"
    using that 1 by (simp add: filter_by_natural_language_def)
  from 1 2 3 show ?thesis by blast
qed

text \<open>
  The claim fails for the recognizers as the specification words them.  In
  "nonpalindromic strings" the substring "palindrom" stands inside a word: the
  recognizer of the specification fires, and the translator returns no result.  In
  "one big word" none of the recognizers of the specification fires ("one word" is no
  substring), and the translator returns the filter set with \<open>word_count\<close> 1.
\<close>

theorem unparseable_spec_recognizers_counterexample:
  "spec_recognizers_fired (toLowerCase ascii_runtime (js ''nonpalindromic strings'')) = 1
   \<and> parseNaturalLanguageQuery ascii_runtime (js ''nonpalindromic strings'') = None
   \<and> spec_recognizers_fired (toLowerCase ascii_runtime (js ''one big word'')) = 0
   \<and> parseNaturalLanguageQuery ascii_runtime (js ''one big word'')
       = Some (no_filters\<lparr>fs_word_count := IntVal (Num 1)\<rparr>)"
  by code_simp

theorem unparseable_iff_no_mention_witness:
  "parseNaturalLanguageQuery ascii_runtime (js ''hello there'') = None
   \<and> filter_by_natural_language ascii_runtime (Some (js ''hello there'')) []
       = ((400, ErrorBody ''Unable to parse natural language query''), [])
   \<and> (\<exists>f. parseNaturalLanguageQuery ascii_runtime (js ''palindromes that contain the letter a'')
            = Some f \<and> fs_is_palindrome f \<noteq> None \<and> fs_contains_character f \<noteq> None
          \<and> fs_word_count f = Undefined)"
proof -
  let ?q1 = "js ''hello there''" and ?q2 = "js ''palindromes that contain the letter a''"
  have "\<not> test re_palindrome (toLowerCase ascii_runtime ?q1)
     \<and> \<not> test re_single_word (toLowerCase ascii_runtime ?q1)
     \<and> \<not> test re_word_count_is_1 (toLowerCase ascii_runtime ?q1)
     \<and> \<not> test re_n_words (toLowerCase ascii_runtime ?q1)
     \<and> \<not> test re_longer (toLowerCase ascii_runtime ?q1)
     \<and> \<not> test re_shorter (toLowerCase ascii_runtime ?q1)
     \<and> \<not> test re_letter (toLowerCase ascii_runtime ?q1)"
    by code_simp
  then have z: "no_mention (toLowerCase ascii_runtime ?q1)"
    by (simp add: no_mention_tests)
  have ne: "?q1 \<noteq> []" by (simp add: js_def)
  have "test re_palindrome (toLowerCase ascii_runtime ?q2)"
    by code_simp
  then have f1: "mentions_palindrome (toLowerCase ascii_runtime ?q2)"
    by (simp add: test_palindrome [symmetric])
  have "test re_letter (toLowerCase ascii_runtime ?q2)"
    by code_simp
  then have f2: "mentions_letter (toLowerCase ascii_runtime ?q2)"
    by (simp add: test_letter [symmetric])
  have "\<not> (test re_single_word (toLowerCase ascii_runtime ?q2)
     \<or> test re_word_count_is_1 (toLowerCase ascii_runtime ?q2)
     \<or> test re_n_words (toLowerCase ascii_runtime ?q2))"
    by code_simp
  then have f3: "\<not> mentions_word_count (toLowerCase ascii_runtime ?q2)"
    by (simp add: mentions_word_count_def test_single_word [symmetric]
        test_word_count_is_1 [symmetric] test_n_words [symmetric])
  from f1 have f: "\<not> no_mention (toLowerCase ascii_runtime ?q2)"
    by (simp add: no_mention_def)
  from unparseable_iff_no_mention [of ascii_runtime ?q1 "[]"] z ne
  have 1: "parseNaturalLanguageQuery ascii_runtime ?q1 = None
     \<and> filter_by_natural_language ascii_runtime (Some ?q1) []
       = ((400, ErrorBody ''Unable to parse natural language query''), [])"
    by blast
  from unparseable_iff_no_mention [of ascii_runtime ?q2 "[]"] f f1 f2 f3
  have 2: "\<exists>f. parseNaturalLanguageQuery ascii_runtime ?q2
            = Some f \<and> fs_is_palindrome f \<noteq> None \<and> fs_contains_character f \<noteq> None
          \<and> fs_word_count f = Undefined"
    by blast
  from 1 2 show ?thesis by blast
qed

lemma parsed_not_null:
  "fs_min_length (parsed_of rt s) \<noteq> Null" "fs_max_length (parsed_of rt s) \<noteq> Null"
  by (simp_all add: parsed_values split: option.splits)

lemma conflict_check:
  assumes "fs_min_length f \<noteq> Null" and "fs_max_length f \<noteq> Null"
  shows "(fs_min_length f \<noteq> Undefined \<and> fs_max_length f \<noteq> Undefined
           \<and> js_gt (fs_min_length f) (fs_max_length f)) = conflicting f"
  using assms
  by (cases "fs_min_length f"; cases "fs_max_length f") (auto simp: conflicting_def num_gt_def)

text \<open>
  Claim C2.  For a non-empty phrase the handler has three outcomes, told apart by the
  status: 422 exactly when the translation has both bounds with the minimum greater than
  the maximum, 400 exactly when the phrase is unparseable, and 200 otherwise; the 422
  response carries the phrase and the derived filters and no records.  For the phrase
  "longer than 10 and shorter than 5" the translator derives \<open>min_length = 11\<close> and
  \<open>max_length = 4\<close> and the handler answers 422.
\<close>

theorem conflicting_bounds_flagged:
  "(q \<noteq> [] \<longrightarrow>
      (fst (fst (filter_by_natural_language rt (Some q) strings)) = 422)
         = (\<exists>f. parseNaturalLanguageQuery rt q = Some f \<and> conflicting f)
      \<and> (fst (fst (filter_by_natural_language rt (Some q) strings)) = 400)
         = (parseNaturalLanguageQuery rt q = None)
      \<and> (fst (fst (filter_by_natural_language rt (Some q) strings)) = 200)
         = (\<exists>f. parseNaturalLanguageQuery rt q = Some f \<and> \<not> conflicting f)
      \<and> (\<forall>f. parseNaturalLanguageQuery rt q = Some f \<and> conflicting f \<longrightarrow>
            filter_by_natural_language rt (Some q) strings
              = ((422, ConflictBody ''Query parsed but resulted in conflicting filters'' q f),
                 strings)))
   \<and> (toLowerCase rt (js ''longer than 10 and shorter than 5'')
         = js ''longer than 10 and shorter than 5'' \<longrightarrow>
       parseNaturalLanguageQuery rt (js ''longer than 10 and shorter than 5'')
         = Some \<lparr>fs_is_palindrome = None, fs_min_length = IntVal (Num 11),
                 fs_max_length = IntVal (Num 4), fs_word_count = Undefined,
                 fs_contains_character = None\<rparr>
       \<and> filter_by_natural_language rt (Some (js ''longer than 10 and shorter than 5'')) strings
         = ((422, ConflictBody ''Query parsed but resulted in conflicting filters''
              (js ''longer than 10 and shorter than 5'')
              \<lparr>fs_is_palindrome = None, fs_min_length = IntVal (Num 11),
                 fs_max_length = IntVal (Num 4), fs_word_count = Undefined,
                 fs_contains_character = None\<rparr>), strings))"
proof -
  let ?H = "filter_by_natural_language rt (Some q) strings"
  let ?p = "parsed_of rt (toLowerCase rt q)"
  have general: "(fst (fst ?H) = 422) = (\<exists>f. parseNaturalLanguageQuery rt q = Some f \<and> conflicting f)
      \<and> (fst (fst ?H) = 400) = (parseNaturalLanguageQuery rt q = None)
      \<and> (fst (fst ?H) = 200) = (\<exists>f. parseNaturalLanguageQuery rt q = Some f \<and> \<not> conflicting f)
      \<and> (\<forall>f. parseNaturalLanguageQuery rt q = Some f \<and> conflicting f \<longrightarrow>
            ?H = ((422, ConflictBody ''Query parsed but resulted in conflicting filters'' q f),
                 strings))"
    if ne: "q \<noteq> []"
  proof (cases "no_keys ?p")
    case True
    then have "parseNaturalLanguageQuery rt q = None" by (simp add: parse_parsed_of)
    with ne show ?thesis by (simp add: filter_by_natural_language_def)
  next
    case False
    then have p: "parseNaturalLanguageQuery rt q = Some ?p" by (simp add: parse_parsed_of)
    have c: "(fs_min_length ?p \<noteq> Undefined \<and> fs_max_length ?p \<noteq> Undefined
           \<and> js_gt (fs_min_length ?p) (fs_max_length ?p)) = conflicting ?p"
      by (rule conflict_check) (rule parsed_not_null)+
    show ?thesis
    proof (cases "conflicting ?p")
      case True
      with c ne p show ?thesis by (simp add: filter_by_natural_language_def Let_def)
    next
      case False
      with c ne p show ?thesis by (auto simp: filter_by_natural_language_def Let_def)
    qed
  qed
  let ?ph = "js ''longer than 10 and shorter than 5''"
  let ?f = "\<lparr>fs_is_palindrome = None, fs_min_length = IntVal (Num 11),
                 fs_max_length = IntVal (Num 4), fs_word_count = Undefined,
                 fs_contains_character = None\<rparr>"
  have concrete: "parseNaturalLanguageQuery rt ?ph = Some ?f
       \<and> filter_by_natural_language rt (Some ?ph) strings
         = ((422, ConflictBody ''Query parsed but resulted in conflicting filters'' ?ph ?f), strings)"
    if lc: "toLowerCase rt ?ph = ?ph"
  proof -
    have t: "test re_palindrome ?ph = False" "test re_single_word ?ph = False"
      "test re_word_count_is_1 ?ph = False" "test re_n_words ?ph = False"
      "test re_letter ?ph = False"
      by code_simp+
    then have e: "exec re_n_words ?ph = None" "exec re_letter ?ph = None"
      by (simp_all add: test_def)
    have l: "first_numbered [js ''longer than ''] [] ?ph = Some (js ''10'')"
      by code_simp
    have s: "first_numbered [js ''shorter than '', js ''less than ''] [] ?ph = Some (js ''5'')"
      by code_simp
    have d: "digits_value (js ''10'') = 10" "digits_value (js ''5'') = 5"
      by (simp_all add: digits_value_def digit_value_def js_def)
    have mn: "fs_min_length (parsed_of rt ?ph) = IntVal (Num 11)"
      using plus_one_exact [of "js ''10''"] by (simp add: parsed_min_length l d)
    have mx: "fs_max_length (parsed_of rt ?ph) = IntVal (Num 4)"
      using minus_one_exact [of "js ''5''"] by (simp add: parsed_max_length s d)
    have others: "fs_is_palindrome (parsed_of rt ?ph) = None"
      "fs_word_count (parsed_of rt ?ph) = Undefined"
      "fs_contains_character (parsed_of rt ?ph) = None"
      by (simp_all add: parsed_values t e)
    have eq: "parsed_of rt ?ph = ?f"
      by (rule filter_set.equality) (simp_all add: mn mx others)
    have nk: "\<not> no_keys ?f" by (simp add: no_keys_def)
    have p: "parseNaturalLanguageQuery rt ?ph = Some ?f"
      using nk by (simp add: parse_parsed_of lc eq)
    have cf: "conflicting ?f" by (simp add: conflicting_def num_gt_def)
    have ne: "?ph \<noteq> []" by (simp add: js_def)
    have "filter_by_natural_language rt (Some ?ph) strings
         = ((422, ConflictBody ''Query parsed but resulted in conflicting filters'' ?ph ?f), strings)"
      using ne p by (simp add: filter_by_natural_language_def num_gt_def)
    with p show ?thesis by blast
  qed
  from general concrete show ?thesis by blast
qed

theorem conflicting_bounds_flagged_witness:
  "fst (fst (filter_by_natural_language ascii_runtime
        (Some (js ''longer than 10 and shorter than 5'')) [example_item ''level''])) = 422
   \<and> fst (fst (filter_by_natural_language ascii_runtime
        (Some (js ''strings longer than 10'')) [example_item ''level''])) = 200
   \<and> fst (fst (filter_by_natural_language ascii_runtime
        (Some (js ''hello there'')) [example_item ''level''])) = 400"
proof -
  let ?ph = "js ''longer than 10 and shorter than 5''"
  let ?S = "[example_item ''level'']"
  have lc: "toLowerCase ascii_runtime ?ph = ?ph"
    by (simp add: ascii_runtime_def ascii_lower_def js_def)
  have ne: "?ph \<noteq> []" "js ''strings longer than 10'' \<noteq> []" "js ''hello there'' \<noteq> []"
    by (simp_all add: js_def)
  have p2: "parseNaturalLanguageQuery ascii_runtime (js ''strings longer than 10'')
      = Some (no_filters\<lparr>fs_min_length := IntVal (Num 11)\<rparr>)"
    by code_simp
  have nc: "\<not> conflicting (no_filters\<lparr>fs_min_length := IntVal (Num 11)\<rparr>)"
    by (simp add: conflicting_def no_filters_def)
  have p3: "parseNaturalLanguageQuery ascii_runtime (js ''hello there'') = None"
    by code_simp
  from conflicting_bounds_flagged [of ?ph ascii_runtime ?S] lc
  have 1: "fst (fst (filter_by_natural_language ascii_runtime (Some ?ph) ?S)) = 422"
    by simp
  from conflicting_bounds_flagged [of "js ''strings longer than 10''" ascii_runtime ?S] ne(2) p2 nc
  have 2: "fst (fst (filter_by_natural_language ascii_runtime
        (Some (js ''strings longer than 10'')) ?S)) = 200"
    by simp
  from conflicting_bounds_flagged [of "js ''hello there''" ascii_runtime ?S] ne(3) p3
  have 3: "fst (fst (filter_by_natural_language ascii_runtime
        (Some (js ''hello there'')) ?S)) = 400"
    by simp
  from 1 2 3 show ?thesis by blast
qed

end
